theory Spec2Isabelle
  imports Main "HOL-Library.List_Lexorder" "HOL-Library.Char_ord"
begin

section \<open>Access levels\<close>

text \<open>
  types.go gives \<open>Repo.Level\<close> and \<open>TeamRepo.Level\<close> the type \<open>Access\<close>, and
  \<open>auditAllRepos\<close> assigns the constant \<open>Admin\<close> to a level. No file of the
  package declares either. (One more file of the repository holds an earlier layout of
  the same structs, which cannot be compiled into one package with types.go; there
  the level is a string field and \<open>Admin\<close> is the constant \<open>"admin"\<close>.) Go defines \<open>>\<close>
  on integers, floating-point numbers and strings only, and on integers and strings
  it is a linear order. The model therefore takes the type of levels as a type
  parameter \<open>'l\<close> of class \<open>linorder\<close>, and the constant as the parameter
  \<open>admin\<close> of the functions that use it.

  Modelled from the spec: the declaration of \<open>Access\<close> that no source file has, as
  the enumeration \<open>{Read, Write, Admin}\<close>, totally ordered
  \<open>Read < Write < Admin\<close>. The concrete runs below use it.
\<close>

datatype Access = Read | Write | Admin

fun access_rank :: "Access \<Rightarrow> nat" where
  "access_rank Read = 0"
| "access_rank Write = 1"
| "access_rank Admin = 2"

instantiation Access :: linorder
begin

definition less_eq_Access :: "Access \<Rightarrow> Access \<Rightarrow> bool" where
  "less_eq_Access x y = (access_rank x \<le> access_rank y)"

definition less_Access :: "Access \<Rightarrow> Access \<Rightarrow> bool" where
  "less_Access x y = (access_rank x < access_rank y)"

instance
proof
  fix x y :: Access
  show "x \<le> y \<Longrightarrow> y \<le> x \<Longrightarrow> x = y"
    by (cases x; cases y) (simp_all add: less_eq_Access_def)
qed (auto simp: less_eq_Access_def less_Access_def)

end

section \<open>types.go\<close>

definition AccountTypeOrg :: string where
  "AccountTypeOrg = ''organization''"

definition AccountTypeUser :: string where
  "AccountTypeUser = ''user''"

definition VisibilityPublic :: string where
  "VisibilityPublic = ''public''"

definition VisibilityPrivate :: string where
  "VisibilityPrivate = ''private''"

record 'l Repo =
  ID :: string
  Name :: string
  Visibility :: string
  Level :: 'l
  AccountName :: string
  AccountType :: string

record 'l TeamRepo =
  Repo :: "'l Repo"
  Level :: 'l

record Account =
  ID :: string
  Name :: string
  IsOrg :: bool
  IsAdmin :: bool

record 'l Team =
  ID :: string
  Name :: string
  Users :: "Account list"
  Repos :: "'l Repo list"

record 'l Org =
  ID :: string
  Name :: string
  Teams :: "'l Team list"

text \<open>
  \<open>User.Repos\<close> is a Go map: \<open>None\<close> is the nil map (reading it finds no key,
  assigning to it panics), \<open>Some m\<close> an allocated one.
\<close>

record 'l User =
  ID :: string
  Name :: string
  IsAdmin :: bool
  Repos :: "(string \<rightharpoonup> 'l Repo) option"

record 'l TeamMember =
  User :: "'l User"

text \<open>
  A Go call either returns or panics; an \<open>error\<close> result is a string, \<open>nil\<close> is
  \<open>None\<close>.
\<close>

type_synonym error = string

datatype 'a outcome = Return 'a | Panic string

text \<open>
  \<open>func (u *User) AddRepo(r Repo)\<close>, on the struct the receiver points to.
\<close>

definition AddRepo :: "'l::linorder User \<Rightarrow> 'l Repo \<Rightarrow> 'l User outcome" where
  "AddRepo u r =
     (case User.Repos u of
        None \<Rightarrow> Panic ''assignment to entry in nil map''
      | Some m \<Rightarrow>
          (case m (Repo.Name r) of
             Some existing \<Rightarrow>
               if Repo.Level existing > Repo.Level r then Return u
               else Return (u\<lparr>User.Repos := Some (m(Repo.Name r \<mapsto> r))\<rparr>)
           | None \<Rightarrow> Return (u\<lparr>User.Repos := Some (m(Repo.Name r \<mapsto> r))\<rparr>)))"

section \<open>The auditor's state and the data source\<close>

text \<open>
  \<open>Auditor.Users\<close> is a \<open>map[string]*User\<close>: the model keeps the pointers. An
  address is a natural number, \<open>store\<close> holds the \<open>User\<close> struct at each address
  and \<open>fresh\<close> is the next address never handed out. \<open>Auditor.Orgs\<close> is a
  \<open>map[string]*Org\<close> too, but every \<open>Org\<close> is allocated by its own composite
  literal and never written afterwards, so the model stores the struct itself.
\<close>

record 'l Auditor =
  Users :: "string \<rightharpoonup> nat"
  Orgs :: "string \<rightharpoonup> 'l Org"
  publicRepos :: "'l Repo list"
  authHeader :: string
  host :: string
  store :: "nat \<Rightarrow> 'l User"
  fresh :: nat

text \<open>
  The five fetchers of the API client surface either the decoded list or an error (after the
  retries of \<open>do\<close>, modelled in the section on util.go). What the server answers is
  the input of a run: \<open>World\<close> holds the answer to each fetch (one answer per
  request, the same whenever the request is repeated). \<open>rangeRank\<close> stands
  for the choice the Go runtime makes when it enumerates the keys of \<open>a.Orgs\<close> in
  \<open>auditOrgs\<close>: the keys are visited by increasing rank (see \<open>range_keys\<close>).
\<close>

record 'l World =
  allRepos :: "error + 'l Repo list"
  allAccounts :: "error + Account list"
  teamsForOrg :: "string \<Rightarrow> error + 'l Team list"
  reposForTeam :: "string \<Rightarrow> string \<Rightarrow> error + 'l TeamRepo list"
  membersForTeam :: "string \<Rightarrow> string \<Rightarrow> error + 'l TeamMember list"
  rangeRank :: "string \<Rightarrow> nat"

definition fetchAllRepos :: "'l::linorder World \<Rightarrow> error + 'l Repo list" where
  "fetchAllRepos w = allRepos w"

definition fetchAccounts :: "'l::linorder World \<Rightarrow> error + Account list" where
  "fetchAccounts w = allAccounts w"

definition fetchTeamsForOrg :: "'l::linorder World \<Rightarrow> string \<Rightarrow> error + 'l Team list" where
  "fetchTeamsForOrg w name = teamsForOrg w name"

definition fetchReposForTeam ::
  "'l::linorder World \<Rightarrow> string \<Rightarrow> string \<Rightarrow> error + 'l TeamRepo list" where
  "fetchReposForTeam w orgName teamName = reposForTeam w orgName teamName"

text \<open>
  The members' JSON objects are decoded into \<open>User\<close> structs. The field
  \<open>Repos\<close> has no tag: it is the nil map unless the member object has a key
  \<open>Repos\<close>.
\<close>

definition fetchMembersForTeam ::
  "'l::linorder World \<Rightarrow> string \<Rightarrow> string \<Rightarrow> error + 'l TeamMember list" where
  "fetchMembersForTeam w orgName teamName = membersForTeam w orgName teamName"

section \<open>auditor.go\<close>

text \<open>
  \<open>base64\<close> stands for \<open>base64.StdEncoding.EncodeToString\<close> of the standard
  library.
\<close>

definition NewAuditor ::
  "(string \<Rightarrow> string) \<Rightarrow> string \<Rightarrow> string \<Rightarrow> string \<Rightarrow> 'l::linorder Auditor" where
  "NewAuditor base64 h user pass =
     \<lparr>Users = Map.empty, Orgs = Map.empty, publicRepos = [],
      authHeader = ''Basic '' @ base64 (user @ '':'' @ pass), host = h,
      store = (\<lambda>_. \<lparr>User.ID = [], Name = [], IsAdmin = False, Repos = None\<rparr>),
      fresh = 0\<rparr>"

text \<open>
  \<open>for _, x := range xs { body }\<close> over a slice: \<open>for_each\<close> when the body has
  no \<open>return\<close>, \<open>for_each_err\<close> when the body leaves the function with the first
  non-nil error.
\<close>

fun for_each :: "('x \<Rightarrow> 's \<Rightarrow> 's outcome) \<Rightarrow> 'x list \<Rightarrow> 's \<Rightarrow> 's outcome" where
  "for_each body [] s = Return s"
| "for_each body (x # xs) s =
     (case body x s of
        Panic msg \<Rightarrow> Panic msg
      | Return s' \<Rightarrow> for_each body xs s')"

fun for_each_err ::
  "('x \<Rightarrow> 's \<Rightarrow> (error option \<times> 's) outcome) \<Rightarrow> 'x list \<Rightarrow> 's \<Rightarrow> (error option \<times> 's) outcome" where
  "for_each_err body [] s = Return (None, s)"
| "for_each_err body (x # xs) s =
     (case body x s of
        Panic msg \<Rightarrow> Panic msg
      | Return (Some err, s') \<Rightarrow> Return (Some err, s')
      | Return (None, s') \<Rightarrow> for_each_err body xs s')"

subsection \<open>Stage 1: auditAllRepos\<close>

text \<open>
  \<open>user.AddRepo(r)\<close> and \<open>user.Repos[name] = r\<close> through a pointer \<open>user\<close>.
\<close>

definition AddRepo_at :: "nat \<Rightarrow> 'l::linorder Repo \<Rightarrow> 'l Auditor \<Rightarrow> 'l Auditor outcome" where
  "AddRepo_at user r a =
     (case AddRepo (store a user) r of
        Panic msg \<Rightarrow> Panic msg
      | Return u' \<Rightarrow> Return (a\<lparr>store := (store a)(user := u')\<rparr>))"

definition assign_repo_at :: "nat \<Rightarrow> 'l::linorder Repo \<Rightarrow> 'l Auditor \<Rightarrow> 'l Auditor outcome" where
  "assign_repo_at user r a =
     (case User.Repos (store a user) of
        None \<Rightarrow> Panic ''assignment to entry in nil map''
      | Some m \<Rightarrow>
          Return (a\<lparr>store := (store a)(user := (store a user)\<lparr>User.Repos := Some (m(Repo.Name r \<mapsto> r))\<rparr>)\<rparr>))"

definition note_public :: "'l::linorder Repo \<Rightarrow> 'l Auditor \<Rightarrow> 'l Auditor" where
  "note_public repo a =
     (if Repo.Visibility repo = VisibilityPublic
      then a\<lparr>publicRepos := publicRepos a @ [repo]\<rparr> else a)"

definition auditAllRepos_repo :: "'l::linorder \<Rightarrow> 'l Repo \<Rightarrow> 'l Auditor \<Rightarrow> 'l Auditor outcome" where
  "auditAllRepos_repo admin repo a =
     (if Repo.AccountType repo = AccountTypeOrg then
        Return (note_public repo
          (case Orgs a (Repo.AccountName repo) of
             Some _ \<Rightarrow> a
           | None \<Rightarrow>
               a\<lparr>Orgs := (Orgs a)(Repo.AccountName repo \<mapsto>
                   \<lparr>Org.ID = [], Name = Repo.AccountName repo, Teams = []\<rparr>)\<rparr>))
      else
        (let (user, a1) =
               (case Users a (Repo.AccountName repo) of
                  Some p \<Rightarrow> (p, a)
                | None \<Rightarrow>
                    (fresh a,
                     a\<lparr>store := (store a)(fresh a :=
                          \<lparr>User.ID = [], Name = Repo.AccountName repo, IsAdmin = False,
                           Repos = Some Map.empty\<rparr>),
                       Users := (Users a)(Repo.AccountName repo \<mapsto> fresh a),
                       fresh := Suc (fresh a)\<rparr>));
             repo' = repo\<lparr>Repo.Level := admin\<rparr>
         in case assign_repo_at user repo' a1 of
              Panic msg \<Rightarrow> Panic msg
            | Return a2 \<Rightarrow> Return (note_public repo' a2)))"

definition auditAllRepos ::
  "'l::linorder \<Rightarrow> 'l World \<Rightarrow> 'l Auditor \<Rightarrow> (error option \<times> 'l Auditor) outcome" where
  "auditAllRepos admin w a =
     (case fetchAllRepos w of
        Inl err \<Rightarrow> Return (Some err, a)
      | Inr repos \<Rightarrow>
          (case for_each (auditAllRepos_repo admin) repos a of
             Panic msg \<Rightarrow> Panic msg
           | Return a' \<Rightarrow> Return (None, a')))"

subsection \<open>Stage 2: auditOrgs and auditTeam\<close>

text \<open>
  In \<open>auditTeam\<close> the inner statement \<open>for _, u := range users\<close> stores
  \<open>&u.User\<close>, the address of a field of its iteration variable, in \<open>a.Users\<close>.
  What that address denotes depends on the language version the program is built
  with. Up to Go 1.21, and later wherever the module does not declare Go 1.22, one
  variable \<open>u\<close> serves all iterations of one execution of the statement, and each
  iteration assigns the next element to it: \<open>PerLoop\<close>. At language version 1.22
  and later every iteration has a variable of its own: \<open>PerIteration\<close>. The model
  takes the version as a parameter; the address of \<open>u.User\<close> is \<open>slot\<close>,
  allocated when the inner statement starts, or a new address in each iteration.
  The assignment of the element to \<open>u\<close> copies the member's \<open>User\<close> struct to
  that address, its \<open>Repos\<close> included (the model copies the map; Go copies the
  reference to it, which is the same for the nil map that a member object without a
  \<open>Repos\<close> key decodes to).
\<close>

datatype loopvar = PerLoop | PerIteration

definition auditTeam_member ::
  "loopvar \<Rightarrow> nat \<Rightarrow> 'l::linorder Repo \<Rightarrow> 'l TeamMember \<Rightarrow> 'l Auditor \<Rightarrow> 'l Auditor outcome" where
  "auditTeam_member sem slot repo member a =
     (let (u, a0) =
            (case sem of
               PerLoop \<Rightarrow> (slot, a)
             | PerIteration \<Rightarrow> (fresh a, a\<lparr>fresh := Suc (fresh a)\<rparr>));
          a1 = a0\<lparr>store := (store a0)(u := TeamMember.User member)\<rparr>
      in case Users a1 (User.Name (store a1 u)) of
           Some user \<Rightarrow> AddRepo_at user repo a1
         | None \<Rightarrow>
             (let a2 = a1\<lparr>store := (store a1)(u := (store a1 u)\<lparr>User.Repos := Some Map.empty\<rparr>)\<rparr>;
                  a3 = a2\<lparr>Users := (Users a2)(User.Name (store a2 u) \<mapsto> u)\<rparr>
              in AddRepo_at u repo a3))"

definition auditTeam_repo ::
  "loopvar \<Rightarrow> 'l::linorder TeamMember list \<Rightarrow> 'l TeamRepo \<Rightarrow> 'l Auditor \<Rightarrow> 'l Auditor outcome" where
  "auditTeam_repo sem users repo a =
     (let r = (TeamRepo.Repo repo)\<lparr>Repo.Level := TeamRepo.Level repo\<rparr>;
          slot = fresh a;
          a0 = a\<lparr>fresh := Suc (fresh a)\<rparr>
      in for_each (auditTeam_member sem slot r) users a0)"

definition auditTeam ::
  "loopvar \<Rightarrow> 'l::linorder World \<Rightarrow> string \<Rightarrow> 'l Team \<Rightarrow> 'l Auditor \<Rightarrow> (error option \<times> 'l Auditor) outcome" where
  "auditTeam sem w orgName team a =
     (case fetchReposForTeam w orgName (Team.Name team) of
        Inl err \<Rightarrow> Return (Some err, a)
      | Inr repos \<Rightarrow>
          (case fetchMembersForTeam w orgName (Team.Name team) of
             Inl err \<Rightarrow> Return (Some err, a)
           | Inr users \<Rightarrow>
               (case for_each (auditTeam_repo sem users) repos a of
                  Panic msg \<Rightarrow> Panic msg
                | Return a' \<Rightarrow> Return (None, a'))))"

definition quoted :: "string \<Rightarrow> string" where
  "quoted s = [CHR 0x27] @ s @ [CHR 0x27]"

definition auditOrgs_team ::
  "loopvar \<Rightarrow> 'l::linorder World \<Rightarrow> string \<Rightarrow> 'l Team \<Rightarrow> 'l Auditor \<Rightarrow> (error option \<times> 'l Auditor) outcome" where
  "auditOrgs_team sem w orgName team a =
     (case auditTeam sem w orgName team a of
        Panic msg \<Rightarrow> Panic msg
      | Return (Some err, a') \<Rightarrow>
          Return (Some (''error auditing teams for org '' @ quoted orgName @ '': '' @ err), a')
      | Return (None, a') \<Rightarrow> Return (None, a'))"

definition auditOrgs_org ::
  "loopvar \<Rightarrow> 'l::linorder World \<Rightarrow> string \<Rightarrow> 'l Auditor \<Rightarrow> (error option \<times> 'l Auditor) outcome" where
  "auditOrgs_org sem w orgName a =
     (case fetchTeamsForOrg w orgName of
        Inl err \<Rightarrow>
          Return (Some (''error fetching teams for org '' @ quoted orgName @ '': '' @ err), a)
      | Inr teams \<Rightarrow> for_each_err (auditOrgs_team sem w orgName) teams a)"

text \<open>
  \<open>for orgName, _ := range a.Orgs\<close> visits every key of the map once, in an order
  that the runtime chooses. \<open>range_keys rank m\<close> is the list of the keys of the
  map \<open>m\<close>, each once, ordered by the rank the runtime gives them (keys of equal
  rank in the order of strings): every order of the keys is \<open>range_keys rank m\<close> for
  some \<open>rank\<close>, and nothing else is. The body of the loop does not write
  \<open>a.Orgs\<close>, so the keys are those at the start of the statement.
\<close>

definition range_keys :: "(string \<Rightarrow> nat) \<Rightarrow> (string \<rightharpoonup> 'v) \<Rightarrow> string list" where
  "range_keys rank m = sort_key rank (sorted_list_of_set (dom m))"

definition auditOrgs ::
  "loopvar \<Rightarrow> 'l::linorder World \<Rightarrow> 'l Auditor \<Rightarrow> (error option \<times> 'l Auditor) outcome" where
  "auditOrgs sem w a =
     for_each_err (auditOrgs_org sem w) (range_keys (rangeRank w) (Orgs a)) a"

subsection \<open>Stage 3: auditRemainingAccounts\<close>

definition auditRemainingAccounts_acc :: "Account \<Rightarrow> 'l::linorder Auditor \<Rightarrow> 'l Auditor outcome" where
  "auditRemainingAccounts_acc acc a =
     (if Account.IsOrg acc then
        (case Orgs a (Account.Name acc) of
           Some _ \<Rightarrow> Return a
         | None \<Rightarrow>
             Return (a\<lparr>Orgs := (Orgs a)(Account.Name acc \<mapsto>
               \<lparr>Org.ID = Account.ID acc, Name = Account.Name acc, Teams = []\<rparr>)\<rparr>))
      else
        (case Users a (Account.Name acc) of
           None \<Rightarrow>
             Return (a\<lparr>store := (store a)(fresh a :=
                        \<lparr>User.ID = Account.ID acc, Name = Account.Name acc,
                         IsAdmin = Account.IsAdmin acc, Repos = None\<rparr>),
                      Users := (Users a)(Account.Name acc \<mapsto> fresh a),
                      fresh := Suc (fresh a)\<rparr>)
         | Some p \<Rightarrow>
             Return (a\<lparr>store := (store a)(p :=
                        (store a p)\<lparr>User.IsAdmin := Account.IsAdmin acc,
                                    User.ID := Account.ID acc\<rparr>)\<rparr>)))"

definition auditRemainingAccounts ::
  "'l::linorder World \<Rightarrow> 'l Auditor \<Rightarrow> (error option \<times> 'l Auditor) outcome" where
  "auditRemainingAccounts w a =
     (case fetchAccounts w of
        Inl err \<Rightarrow> Return (Some err, a)
      | Inr accts \<Rightarrow>
          (case for_each auditRemainingAccounts_acc accts a of
             Panic msg \<Rightarrow> Panic msg
           | Return a' \<Rightarrow> Return (None, a')))"

subsection \<open>Run and main\<close>

definition chain ::
  "'l::linorder \<Rightarrow> loopvar \<Rightarrow> 'l World \<Rightarrow> ('l Auditor \<Rightarrow> (error option \<times> 'l Auditor) outcome) list" where
  "chain admin sem w = [auditAllRepos admin w, auditOrgs sem w, auditRemainingAccounts w]"

definition Run ::
  "'l::linorder \<Rightarrow> loopvar \<Rightarrow> 'l World \<Rightarrow> 'l Auditor \<Rightarrow> (error option \<times> 'l Auditor) outcome" where
  "Run admin sem w a = for_each_err (\<lambda>f. f) (chain admin sem w) a"

text \<open>
  What \<open>json.MarshalIndent(auditor)\<close> reads: the exported fields \<open>Users\<close>, with
  every pointer followed to its struct, and \<open>Orgs\<close>.
\<close>

definition report_users :: "'l::linorder Auditor \<Rightarrow> (string \<rightharpoonup> 'l User)" where
  "report_users a = (\<lambda>name. map_option (store a) (Users a name))"

datatype 'l printed = ErrorLine string | Report "string \<rightharpoonup> 'l User" "string \<rightharpoonup> 'l Org"

record 'l process =
  stdout :: "'l printed list"
  exit_status :: nat

text \<open>
  \<open>main\<close> writes the error line and exits with status 1, or writes the report and
  returns (status 0); a panic ends the process with status 2 and writes nothing to
  standard output. The progress lines that the stages print are not modelled.
\<close>

definition main_go ::
  "'l::linorder \<Rightarrow> loopvar \<Rightarrow> (string \<Rightarrow> string) \<Rightarrow> (string \<Rightarrow> string) \<Rightarrow> 'l World
     \<Rightarrow> 'l process" where
  "main_go admin sem base64 getenv w =
     (let auditor = NewAuditor base64 (getenv ''HOST'') (getenv ''USER'') (getenv ''PASS'')
      in case Run admin sem w auditor of
           Panic msg \<Rightarrow> \<lparr>stdout = [], exit_status = 2\<rparr>
         | Return (Some err, a) \<Rightarrow> \<lparr>stdout = [ErrorLine (''ERROR: '' @ err)], exit_status = 1\<rparr>
         | Return (None, a) \<Rightarrow> \<lparr>stdout = [Report (report_users a) (Orgs a)], exit_status = 0\<rparr>)"

section \<open>util.go and the request helper of the API client\<close>

text \<open>
  The process's view of the network and of time: \<open>answers i\<close> is what the \<open>i\<close>-th
  round trip of \<open>client.Do\<close> yields (a transport error, or a response with its
  status code and body), \<open>calls\<close> counts the round trips made, and \<open>trace\<close> records,
  in order, every round trip with its URI and every wait with its seconds.
\<close>

datatype http_result = TransportError error | Response nat string

datatype event = RoundTrip string | Wait nat

record net =
  answers :: "nat \<Rightarrow> http_result"
  calls :: nat
  trace :: "event list"

definition client_Do :: "string \<Rightarrow> net \<Rightarrow> http_result \<times> net" where
  "client_Do uri n =
     (answers n (calls n), n\<lparr>calls := Suc (calls n), trace := trace n @ [RoundTrip uri]\<rparr>)"

text \<open>
  \<open>retry\<close>: the loop \<open>for i := 0; i < 3; i++\<close> with the named result \<open>err\<close>,
  which starts as nil. \<open>f\<close> is a closure: it reads and writes the variables it
  captures (\<open>'v\<close>) and the network. \<open><-time.After(5 * time.Second)\<close> is
  \<open>Wait 5\<close>.
\<close>

function retry_from ::
  "nat \<Rightarrow> error option \<Rightarrow> ('v \<times> net \<Rightarrow> error option \<times> 'v \<times> net) \<Rightarrow> 'v \<times> net
     \<Rightarrow> error option \<times> 'v \<times> net" where
  "retry_from i err f s =
     (if i < 3 then
        (case f s of
           (None, s') \<Rightarrow> (None, s')
         | (Some e, (v, n)) \<Rightarrow>
             retry_from (Suc i) (Some e) f (v, n\<lparr>trace := trace n @ [Wait 5]\<rparr>))
      else (err, s))"
  by pat_completeness auto
termination
  by (relation "measure (\<lambda>(i, err, f, s). 3 - i)") auto

declare retry_from.simps [simp del]

definition retry ::
  "('v \<times> net \<Rightarrow> error option \<times> 'v \<times> net) \<Rightarrow> 'v \<times> net \<Rightarrow> error option \<times> 'v \<times> net" where
  "retry f s = retry_from 0 None f s"

text \<open>The verb \<open>%d\<close> of \<open>fmt\<close> on a status code.\<close>

function decimal :: "nat \<Rightarrow> string" where
  "decimal n =
     (if n < 10 then [char_of (48 + n)]
      else decimal (n div 10) @ [char_of (48 + n mod 10)])"
  by pat_completeness auto
termination
  by (relation "measure (\<lambda>n. n)") auto

declare decimal.simps [simp del]

text \<open>
  \<open>do\<close>: a request is modelled by its URI (the Authorization header it sets has
  no part in the retries). \<open>do_attempt\<close> is the closure \<open>f\<close> of \<open>do\<close>; the
  variable it captures is \<open>resp\<close>, nil at first. The operands of
  \<open>return resp, retry(f)\<close> are read after \<open>retry\<close> has returned.
\<close>

definition do_attempt ::
  "string \<Rightarrow> (nat \<times> string) option \<times> net \<Rightarrow> error option \<times> (nat \<times> string) option \<times> net" where
  "do_attempt uri s =
     (case s of (resp, n) \<Rightarrow>
        (case client_Do uri n of
           (TransportError err, n') \<Rightarrow> (Some err, (None, n'))
         | (Response code body, n') \<Rightarrow>
             if code < 200 \<or> code > 299 then
               (Some (''unexpected status code requesting uri '' @ uri @ '': '' @ decimal code),
                (Some (code, body), n'))
             else (None, (Some (code, body), n'))))"

definition do :: "string \<Rightarrow> net \<Rightarrow> ((nat \<times> string) option \<times> error option) \<times> net" where
  "do uri n = (case retry (do_attempt uri) (None, n) of (err, (resp, n')) \<Rightarrow> ((resp, err), n'))"

section \<open>Notions used by the properties\<close>

text \<open>
  The access level an account record stores for a repository name: none when the
  permission mapping is nil or has no entry for the name.
\<close>

definition stored_level :: "'l::linorder User \<Rightarrow> string \<Rightarrow> 'l option" where
  "stored_level u name =
     (case User.Repos u of
        None \<Rightarrow> None
      | Some m \<Rightarrow> map_option Repo.Level (m name))"

text \<open>
  The merge rule in the spec's words: the result is the existing level if it is at
  least the incoming one, else the incoming one; an absent entry takes the incoming
  level.
\<close>

definition merge_level :: "'l::linorder option \<Rightarrow> 'l \<Rightarrow> 'l option" where
  "merge_level existing incoming =
     (case existing of
        None \<Rightarrow> Some incoming
      | Some l \<Rightarrow> if l \<ge> incoming then Some l else Some incoming)"

text \<open>
  Every pointer of the registry is an address that has been handed out.
\<close>

definition wf_auditor :: "'l::linorder Auditor \<Rightarrow> bool" where
  "wf_auditor a = (\<forall>name p. Users a name = Some p \<longrightarrow> p < fresh a)"

text \<open>
  The account \<open>name\<close> is registered at address \<open>p\<close> and its record satisfies
  \<open>Q\<close>.
\<close>

definition kept :: "('l::linorder User \<Rightarrow> bool) \<Rightarrow> string \<Rightarrow> nat \<Rightarrow> 'l Auditor \<Rightarrow> bool" where
  "kept Q name p a = (wf_auditor a \<and> Users a name = Some p \<and> Q (store a p))"

text \<open>
  The repositories that \<open>auditTeam\<close> can merge: an entry of the grant list of some
  team, with the team's level copied into it.
\<close>

definition team_grant :: "'l::linorder World \<Rightarrow> 'l Repo \<Rightarrow> bool" where
  "team_grant w r =
     (\<exists>orgName teamName repos tr.
        fetchReposForTeam w orgName teamName = Inr repos \<and> tr \<in> set repos \<and>
        r = (TeamRepo.Repo tr)\<lparr>Repo.Level := TeamRepo.Level tr\<rparr>)"

text \<open>
  The record stores, for the repository name \<open>k\<close>, a level that is at least \<open>l\<close>.
\<close>

definition at_least :: "string \<Rightarrow> 'l::linorder \<Rightarrow> 'l User \<Rightarrow> bool" where
  "at_least k l u = (\<exists>l'. stored_level u k = Some l' \<and> l \<le> l')"

subsection \<open>Concrete inputs\<close>

definition grant :: "string \<Rightarrow> Access \<Rightarrow> Access Repo" where
  "grant name l =
     \<lparr>Repo.ID = [], Name = name, Visibility = VisibilityPrivate, Level = l,
      AccountName = ''acme'', AccountType = AccountTypeOrg\<rparr>"

definition nobody :: "Access User" where
  "nobody = \<lparr>User.ID = [], Name = ''carol'', IsAdmin = False, Repos = Some Map.empty\<rparr>"

definition repo_of :: "string \<Rightarrow> string \<Rightarrow> string \<Rightarrow> string \<Rightarrow> Access Repo" where
  "repo_of owner ty name vis =
     \<lparr>Repo.ID = [], Name = name, Visibility = vis, Level = Read,
      AccountName = owner, AccountType = ty\<rparr>"

definition member :: "string \<Rightarrow> string \<Rightarrow> Access TeamMember" where
  "member i name =
     \<lparr>TeamMember.User = \<lparr>User.ID = i, Name = name, IsAdmin = False, Repos = None\<rparr>\<rparr>"

definition a0 :: "Access Auditor" where
  "a0 = NewAuditor (\<lambda>s. s) ''dtr.example'' ''admin'' ''secret''"

text \<open>
  A server with the private repository \<open>proj\<close> of user \<open>alice\<close>, the private
  repository \<open>infra\<close> of organization \<open>acme\<close> and the public repository \<open>tool\<close>
  of user \<open>erin\<close>. The team \<open>platform\<close> of \<open>acme\<close> has Write on \<open>infra\<close> and
  Read on \<open>proj\<close>; its members are \<open>alice\<close> and \<open>bob\<close>. The account listing has
  \<open>acme\<close>, \<open>alice\<close> and the administrator \<open>dave\<close>.
\<close>

definition demo :: "Access World" where
  "demo =
     \<lparr>allRepos = Inr [repo_of ''alice'' AccountTypeUser ''proj'' VisibilityPrivate,
                     repo_of ''acme'' AccountTypeOrg ''infra'' VisibilityPrivate,
                     repo_of ''erin'' AccountTypeUser ''tool'' VisibilityPublic],
      allAccounts = Inr [\<lparr>Account.ID = ''7'', Name = ''acme'', IsOrg = True, IsAdmin = False\<rparr>,
                        \<lparr>Account.ID = ''1'', Name = ''alice'', IsOrg = False, IsAdmin = False\<rparr>,
                        \<lparr>Account.ID = ''4'', Name = ''dave'', IsOrg = False, IsAdmin = True\<rparr>],
      teamsForOrg = (\<lambda>_. Inr [\<lparr>Team.ID = ''t1'', Name = ''platform'', Users = [], Repos = []\<rparr>]),
      reposForTeam = (\<lambda>_ _. Inr
         [\<lparr>TeamRepo.Repo = repo_of ''acme'' AccountTypeOrg ''infra'' VisibilityPrivate,
           Level = Write\<rparr>,
          \<lparr>TeamRepo.Repo = repo_of ''alice'' AccountTypeUser ''proj'' VisibilityPrivate,
           Level = Read\<rparr>]),
      membersForTeam = (\<lambda>_ _. Inr [member ''1'' ''alice'', member ''2'' ''bob'']),
      rangeRank = (\<lambda>_. 0)\<rparr>"

text \<open>
  A registry in which \<open>alice\<close> is known, as owner of \<open>proj\<close>.
\<close>

definition known_alice :: "Access Auditor" where
  "known_alice =
     a0\<lparr>Users := [''alice'' \<mapsto> 0],
        store := (store a0)(0 :=
          \<lparr>User.ID = [], Name = ''alice'', IsAdmin = False,
           Repos = Some [''proj'' \<mapsto> (repo_of ''alice'' AccountTypeUser ''proj'' VisibilityPrivate)
                                      \<lparr>Repo.Level := Admin\<rparr>]\<rparr>),
        fresh := 1\<rparr>"

text \<open>
  A server where the only team of \<open>acme\<close> has the member \<open>bob\<close> and no
  repository grant, and the account listing has no entry for \<open>bob\<close>.
\<close>

definition idle_team :: "Access World" where
  "idle_team =
     \<lparr>allRepos = Inr [repo_of ''acme'' AccountTypeOrg ''infra'' VisibilityPrivate],
      allAccounts = Inr [\<lparr>Account.ID = ''7'', Name = ''acme'', IsOrg = True, IsAdmin = False\<rparr>],
      teamsForOrg = (\<lambda>_. Inr [\<lparr>Team.ID = ''t1'', Name = ''platform'', Users = [], Repos = []\<rparr>]),
      reposForTeam = (\<lambda>_ _. Inr []),
      membersForTeam = (\<lambda>_ _. Inr [member ''2'' ''bob'']),
      rangeRank = (\<lambda>_. 0)\<rparr>"

text \<open>
  Whether one round trip fails, and with which error: a transport error does, and so
  does a response whose status code is not in \<open>200..299\<close>.
\<close>

definition failure :: "string \<Rightarrow> http_result \<Rightarrow> error option" where
  "failure uri r =
     (case r of
        TransportError err \<Rightarrow> Some err
      | Response code body \<Rightarrow>
          if 200 \<le> code \<and> code \<le> 299 then None
          else Some (''unexpected status code requesting uri '' @ uri @ '': '' @ decimal code))"

text \<open>The environment that gives \<open>NewAuditor\<close> the state \<open>a0\<close>.\<close>

definition environ :: "string \<Rightarrow> string" where
  "environ k =
     (if k = ''HOST'' then ''dtr.example''
      else if k = ''USER'' then ''admin''
      else if k = ''PASS'' then ''secret'' else [])"

text \<open>The server of \<open>demo\<close>, where fetching the members of a team fails.\<close>

definition outage :: "Access World" where
  "outage = demo\<lparr>membersForTeam := (\<lambda>_ _. Inl ''error requesting users for team: timeout'')\<rparr>"

text \<open>
  A server where the team \<open>platform\<close> of \<open>acme\<close> has Write on \<open>infra\<close> and
  lists its members as \<open>bob\<close>, who owns nothing, and then \<open>alice\<close>, who owns
  \<open>proj\<close>; in \<open>clobber2\<close> the team has Read on \<open>web\<close> as well.
\<close>

definition clobber :: "Access World" where
  "clobber =
     \<lparr>allRepos = Inr [repo_of ''alice'' AccountTypeUser ''proj'' VisibilityPrivate,
                     repo_of ''acme'' AccountTypeOrg ''infra'' VisibilityPrivate],
      allAccounts = Inr [\<lparr>Account.ID = ''7'', Name = ''acme'', IsOrg = True, IsAdmin = False\<rparr>,
                        \<lparr>Account.ID = ''1'', Name = ''alice'', IsOrg = False, IsAdmin = False\<rparr>,
                        \<lparr>Account.ID = ''2'', Name = ''bob'', IsOrg = False, IsAdmin = False\<rparr>],
      teamsForOrg = (\<lambda>_. Inr [\<lparr>Team.ID = ''t1'', Name = ''platform'', Users = [], Repos = []\<rparr>]),
      reposForTeam = (\<lambda>_ _. Inr
         [\<lparr>TeamRepo.Repo = repo_of ''acme'' AccountTypeOrg ''infra'' VisibilityPrivate,
           Level = Write\<rparr>]),
      membersForTeam = (\<lambda>_ _. Inr [member ''2'' ''bob'', member ''1'' ''alice'']),
      rangeRank = (\<lambda>_. 0)\<rparr>"

definition clobber2 :: "Access World" where
  "clobber2 = clobber\<lparr>reposForTeam := (\<lambda>_ _. Inr
         [\<lparr>TeamRepo.Repo = repo_of ''acme'' AccountTypeOrg ''infra'' VisibilityPrivate,
           Level = Write\<rparr>,
          \<lparr>TeamRepo.Repo = repo_of ''acme'' AccountTypeOrg ''web'' VisibilityPrivate,
           Level = Read\<rparr>])\<rparr>"

text \<open>
  Two networks: one that answers the third round trip, after a refused connection and
  a 404, and one that never answers well.
\<close>

definition flaky2 :: net where
  "flaky2 =
     \<lparr>answers = (\<lambda>i. if i = 0 then TransportError ''connection refused''
                      else if i = 1 then Response 404 ''not found''
                      else Response 200 ''{}''),
      calls = 0, trace = []\<rparr>"

definition down :: net where
  "down =
     \<lparr>answers = (\<lambda>i. if i = 2 then TransportError ''timeout'' else Response 404 ''not found''),
      calls = 0, trace = []\<rparr>"

section \<open>Range statements\<close>

lemma for_each_invariant:
  assumes "for_each body xs s = Return s'" and "I s"
    and "\<And>x t t'. x \<in> set xs \<Longrightarrow> I t \<Longrightarrow> body x t = Return t' \<Longrightarrow> I t'"
  shows "I s'"
  using assms
proof (induction xs arbitrary: s)
  case Nil
  then show ?case by simp
next
  case (Cons x xs)
  from Cons.prems(1) obtain t where t: "body x s = Return t" "for_each body xs t = Return s'"
    by (auto split: outcome.splits)
  have It: "I t" using Cons.prems(3) [of x s t] Cons.prems(2) t(1) by simp
  show ?case
  proof (rule Cons.IH [OF t(2) It])
    fix y u u'
    assume "y \<in> set xs" "I u" "body y u = Return u'"
    then show "I u'" using Cons.prems(3) [of y u u'] by simp
  qed
qed

lemma for_each_err_invariant:
  assumes "for_each_err body xs s = Return (e, s')" and "I s"
    and "\<And>x t e' t'. x \<in> set xs \<Longrightarrow> I t \<Longrightarrow> body x t = Return (e', t') \<Longrightarrow> I t'"
  shows "I s'"
  using assms
proof (induction xs arbitrary: s)
  case Nil
  then show ?case by simp
next
  case (Cons x xs)
  show ?case
  proof (cases "body x s")
    case (Panic msg)
    then show ?thesis using Cons.prems(1) by simp
  next
    case (Return r)
    obtain e1 t where r: "r = (e1, t)" by (cases r)
    have It: "I t" using Cons.prems(3) [of x s e1 t] Cons.prems(2) Return r by simp
    show ?thesis
    proof (cases e1)
      case None
      then have rest: "for_each_err body xs t = Return (e, s')"
        using Cons.prems(1) Return r by simp
      show ?thesis
      proof (rule Cons.IH [OF rest It])
        fix y u e' u'
        assume "y \<in> set xs" "I u" "body y u = Return (e', u')"
        then show "I u'" using Cons.prems(3) [of y u e' u'] by simp
      qed
    next
      case (Some err)
      then have "s' = t" using Cons.prems(1) Return r by simp
      then show ?thesis using It by simp
    qed
  qed
qed

lemma for_each_append:
  "for_each body (xs @ ys) s =
     (case for_each body xs s of Panic msg \<Rightarrow> Panic msg | Return t \<Rightarrow> for_each body ys t)"
  by (induction xs arbitrary: s) (auto split: outcome.splits)

lemma for_each_err_append:
  "for_each_err body (xs @ ys) s =
     (case for_each_err body xs s of
        Panic msg \<Rightarrow> Panic msg
      | Return (Some err, t) \<Rightarrow> Return (Some err, t)
      | Return (None, t) \<Rightarrow> for_each_err body ys t)"
  by (induction xs arbitrary: s) (auto split: outcome.splits option.splits)

lemma for_each_establishes:
  assumes run: "for_each body xs s = Return s'" and x: "x \<in> set xs" and "I s"
    and inv: "\<And>y t t'. y \<in> set xs \<Longrightarrow> I t \<Longrightarrow> body y t = Return t' \<Longrightarrow> I t'"
    and est: "\<And>t t'. I t \<Longrightarrow> body x t = Return t' \<Longrightarrow> P t'"
    and pres: "\<And>y t t'. y \<in> set xs \<Longrightarrow> I t \<Longrightarrow> P t \<Longrightarrow> body y t = Return t' \<Longrightarrow> P t'"
  shows "I s' \<and> P s'"
proof -
  from x obtain pre post where xs: "xs = pre @ x # post" by (auto simp: in_set_conv_decomp)
  from run obtain t1 t2 where
    t1: "for_each body pre s = Return t1" and t2: "body x t1 = Return t2"
    and t3: "for_each body post t2 = Return s'"
    unfolding xs by (auto simp: for_each_append split: outcome.splits)
  have I1: "I t1"
    by (rule for_each_invariant [where I = I, OF t1]) (use \<open>I s\<close> inv xs in auto)
  have I2: "I t2 \<and> P t2" using inv [of x t1 t2] est [OF I1 t2] I1 t2 x by simp
  show ?thesis
  proof (rule for_each_invariant [where I = "\<lambda>t. I t \<and> P t", OF t3])
    show "I t2 \<and> P t2" by (fact I2)
  next
    fix y t t'
    assume y: "y \<in> set post" "I t \<and> P t" "body y t = Return t'"
    then have "y \<in> set xs" using xs by simp
    then show "I t' \<and> P t'" using y inv [of y t t'] pres [of y t t'] by blast
  qed
qed

lemma for_each_err_establishes:
  assumes run: "for_each_err body xs s = Return (None, s')" and x: "x \<in> set xs" and "I s"
    and inv: "\<And>y t e t'. y \<in> set xs \<Longrightarrow> I t \<Longrightarrow> body y t = Return (e, t') \<Longrightarrow> I t'"
    and est: "\<And>t t'. I t \<Longrightarrow> body x t = Return (None, t') \<Longrightarrow> P t'"
    and pres: "\<And>y t e t'. y \<in> set xs \<Longrightarrow> I t \<Longrightarrow> P t \<Longrightarrow> body y t = Return (e, t') \<Longrightarrow> P t'"
  shows "I s' \<and> P s'"
proof -
  from x obtain pre post where xs: "xs = pre @ x # post" by (auto simp: in_set_conv_decomp)
  from run obtain t1 t2 where
    t1: "for_each_err body pre s = Return (None, t1)" and t2: "body x t1 = Return (None, t2)"
    and t3: "for_each_err body post t2 = Return (None, s')"
    unfolding xs by (auto simp: for_each_err_append split: outcome.splits option.splits)
  have I1: "I t1"
    by (rule for_each_err_invariant [where I = I, OF t1]) (use \<open>I s\<close> inv xs in auto)
  have I2: "I t2 \<and> P t2" using inv [of x t1 None t2] est [OF I1 t2] I1 t2 x by simp
  show ?thesis
  proof (rule for_each_err_invariant [where I = "\<lambda>t. I t \<and> P t", OF t3])
    show "I t2 \<and> P t2" by (fact I2)
  next
    fix y t e' t'
    assume y: "y \<in> set post" "I t \<and> P t" "body y t = Return (e', t')"
    then have "y \<in> set xs" using xs by simp
    then show "I t' \<and> P t'" using y inv [of y t e' t'] pres [of y t e' t'] by blast
  qed
qed

section \<open>Runs on the concrete inputs\<close>

lemmas eval_defs = Run_def chain_def a0_def NewAuditor_def range_keys_def
  auditAllRepos_def fetchAllRepos_def auditAllRepos_repo_def assign_repo_at_def note_public_def
  auditOrgs_def auditOrgs_org_def auditOrgs_team_def auditTeam_def auditTeam_repo_def
  auditTeam_member_def AddRepo_at_def AddRepo_def fetchTeamsForOrg_def fetchReposForTeam_def
  fetchMembersForTeam_def auditRemainingAccounts_def auditRemainingAccounts_acc_def
  fetchAccounts_def AccountTypeOrg_def AccountTypeUser_def VisibilityPublic_def
  VisibilityPrivate_def repo_of_def member_def Let_def less_Access_def

lemma demo_runs: "\<exists>a'. Run admin sem demo a0 = Return (None, a')"
  by (cases sem) (simp_all add: demo_def eval_defs)

section \<open>The merge rule of AddRepo\<close>

lemma AddRepo_stored_level:
  assumes "User.Repos u \<noteq> None"
  shows "\<exists>u'. AddRepo u r = Return u' \<and> User.Repos u' \<noteq> None \<and>
           (\<forall>k. stored_level u' k =
              (if k = Repo.Name r then merge_level (stored_level u k) (Repo.Level r)
               else stored_level u k))"
  using assms
  by (auto simp: AddRepo_def stored_level_def merge_level_def split: option.splits)

lemma for_each_AddRepo_stored_level:
  assumes "User.Repos u \<noteq> None"
  shows "\<exists>u'. for_each (\<lambda>r u. AddRepo u r) offers u = Return u' \<and> User.Repos u' \<noteq> None \<and>
           (\<forall>k. stored_level u' k =
              foldl merge_level (stored_level u k)
                (map Repo.Level (filter (\<lambda>r. Repo.Name r = k) offers)))"
  using assms
proof (induction offers arbitrary: u)
  case Nil
  then show ?case by simp
next
  case (Cons r rs)
  from AddRepo_stored_level [OF Cons.prems, of r] obtain u1 where
    u1: "AddRepo u r = Return u1" "User.Repos u1 \<noteq> None"
      "\<forall>k. stored_level u1 k =
              (if k = Repo.Name r then merge_level (stored_level u k) (Repo.Level r)
               else stored_level u k)" by blast
  from Cons.IH [OF u1(2)] obtain u' where
    u': "for_each (\<lambda>r u. AddRepo u r) rs u1 = Return u'" "User.Repos u' \<noteq> None"
      "\<forall>k. stored_level u' k =
              foldl merge_level (stored_level u1 k)
                (map Repo.Level (filter (\<lambda>r. Repo.Name r = k) rs))" by blast
  show ?case using u1 u' by auto
qed

lemma foldl_merge_level_Some:
  "foldl merge_level (Some l) ls = Some (Max (insert l (set ls)))"
proof (induction ls arbitrary: l)
  case Nil
  then show ?case by simp
next
  case (Cons x xs)
  have "merge_level (Some l) x = Some (max l x)"
    by (auto simp: merge_level_def max_def)
  moreover have "Max (insert (max l x) (set xs)) = Max (insert l (insert x (set xs)))"
    by (metis List.finite_set Max_insert Max_singleton finite.insertI insert_not_empty max.assoc)
  ultimately show ?case using Cons.IH [of "max l x"] by simp
qed

lemma foldl_merge_level_None:
  "ls \<noteq> [] \<Longrightarrow> foldl merge_level None ls = Some (Max (set ls))"
  by (cases ls) (simp_all add: foldl_merge_level_Some merge_level_def)

text \<open>
  C2 (merge monotonicity). Offers are merged into an account record by \<open>AddRepo\<close>,
  one after the other. When the record's mapping is allocated and has no entry for
  the repository name \<open>R\<close>, then after any sequence of offers of which at least one
  is for \<open>R\<close>, all merges have returned and the level stored for \<open>R\<close> is the
  maximum of the levels offered for \<open>R\<close>, in the order of the levels: for the
  enumeration of the spec, the maximum under \<open>Read < Write < Admin\<close>. Moreover
  every single merge into an allocated mapping stores, for the name of the offer,
  the level the spec's rule \<open>merge_level\<close> gives: the existing level when it is at
  least the incoming one, and otherwise the incoming one.
\<close>

theorem merge_monotonicity:
  fixes u :: "'l::linorder User"
  assumes "User.Repos u = Some m" and "m R = None"
    and "\<exists>r \<in> set offers. Repo.Name r = R"
  shows "(\<exists>u'. for_each (\<lambda>r u. AddRepo u r) offers u = Return u' \<and>
            stored_level u' R = Some (Max (Repo.Level ` {r \<in> set offers. Repo.Name r = R})))
         \<and> (\<forall>(v :: 'l User) r. User.Repos v \<noteq> None \<longrightarrow>
               (\<exists>v'. AddRepo v r = Return v' \<and>
                  stored_level v' (Repo.Name r)
                    = merge_level (stored_level v (Repo.Name r)) (Repo.Level r)))"
proof -
  have "User.Repos u \<noteq> None" using assms(1) by simp
  from for_each_AddRepo_stored_level [OF this, of offers] obtain u' where
    u': "for_each (\<lambda>r u. AddRepo u r) offers u = Return u'"
      "\<forall>k. stored_level u' k =
              foldl merge_level (stored_level u k)
                (map Repo.Level (filter (\<lambda>r. Repo.Name r = k) offers))" by blast
  have none: "stored_level u R = None" using assms(1,2) by (simp add: stored_level_def)
  have ne: "map Repo.Level (filter (\<lambda>r. Repo.Name r = R) offers) \<noteq> []"
    using assms(3) by (auto simp: filter_empty_conv)
  have "set (map Repo.Level (filter (\<lambda>r. Repo.Name r = R) offers))
          = Repo.Level ` {r \<in> set offers. Repo.Name r = R}" by auto
  with u' none foldl_merge_level_None [OF ne] have first:
    "\<exists>u'. for_each (\<lambda>r u. AddRepo u r) offers u = Return u' \<and>
            stored_level u' R = Some (Max (Repo.Level ` {r \<in> set offers. Repo.Name r = R}))"
    by auto
  have second: "\<forall>(v :: 'l User) r. User.Repos v \<noteq> None \<longrightarrow>
               (\<exists>v'. AddRepo v r = Return v' \<and>
                  stored_level v' (Repo.Name r)
                    = merge_level (stored_level v (Repo.Name r)) (Repo.Level r))"
    using AddRepo_stored_level by metis
  from first second show ?thesis by blast
qed

theorem merge_monotonicity_witness:
  "\<exists>u'. for_each (\<lambda>r u. AddRepo u r)
           [grant ''infra'' Write, grant ''web'' Read, grant ''infra'' Admin, grant ''infra'' Read]
           nobody = Return u' \<and>
         stored_level u' ''infra'' = Some Admin"
proof -
  have max: "Max {Write, Admin, Read} = Admin"
    by (simp add: max_def less_eq_Access_def)
  have img: "Repo.Level ` {r \<in> set [grant ''infra'' Write, grant ''web'' Read,
                 grant ''infra'' Admin, grant ''infra'' Read]. Repo.Name r = ''infra''}
               = {Write, Admin, Read}"
  proof -
    have "Repo.Level ` {r \<in> set [grant ''infra'' Write, grant ''web'' Read,
                 grant ''infra'' Admin, grant ''infra'' Read]. Repo.Name r = ''infra''}
            = set (map Repo.Level (filter (\<lambda>r. Repo.Name r = ''infra'')
                [grant ''infra'' Write, grant ''web'' Read,
                 grant ''infra'' Admin, grant ''infra'' Read]))"
      by auto
    also have "\<dots> = {Write, Admin, Read}"
      by (simp add: grant_def)
    finally show ?thesis .
  qed
  show ?thesis
    using merge_monotonicity [of nobody Map.empty "''infra''"
        "[grant ''infra'' Write, grant ''web'' Read, grant ''infra'' Admin, grant ''infra'' Read]"]
    unfolding img max
    by (simp add: nobody_def grant_def)
qed

text \<open>
  What the order of the levels is depends on the declaration of \<open>Access\<close>, which
  the sources lack. If it were a string type, as the constant \<open>"admin"\<close> of the
  earlier layout is, \<open>>\<close> would compare the names of the levels as strings,
  where \<open>"admin"\<close> is below \<open>"read-only"\<close>: a merge of \<open>"read-only"\<close> into an
  entry that stores \<open>"admin"\<close> would then replace the entry.
\<close>

lemma AddRepo_on_level_names:
  "AddRepo
     \<lparr>User.ID = [], Name = ''alice'', IsAdmin = False,
      Repos = Some [''proj'' \<mapsto>
        \<lparr>Repo.ID = [], Name = ''proj'', Visibility = VisibilityPrivate, Level = ''admin'',
         AccountName = ''alice'', AccountType = AccountTypeUser\<rparr>]\<rparr>
     \<lparr>Repo.ID = [], Name = ''proj'', Visibility = VisibilityPrivate, Level = ''read-only'',
      AccountName = ''alice'', AccountType = AccountTypeUser\<rparr>
   = Return
     \<lparr>User.ID = [], Name = ''alice'', IsAdmin = False,
      Repos = Some [''proj'' \<mapsto>
        \<lparr>Repo.ID = [], Name = ''proj'', Visibility = VisibilityPrivate, Level = ''read-only'',
         AccountName = ''alice'', AccountType = AccountTypeUser\<rparr>]\<rparr>"
  by (simp add: AddRepo_def)

section \<open>Stages 2 and 3 keep a registered record\<close>

lemma auditTeam_member_kept:
  assumes "auditTeam_member sem slot repo m a = Return a'"
    and "kept Q name p a" and "p < slot" and "slot < fresh a"
    and "\<And>u u'. Q u \<Longrightarrow> AddRepo u repo = Return u' \<Longrightarrow> Q u'"
  shows "kept Q name p a' \<and> slot < fresh a'"
  using assms
  unfolding auditTeam_member_def AddRepo_at_def kept_def wf_auditor_def Let_def
  by (cases sem) (auto split: option.splits outcome.splits if_splits, (blast intro: less_SucI)+)

lemma auditTeam_repo_kept:
  assumes "auditTeam_repo sem users tr a = Return a'"
    and "kept Q name p a"
    and st: "\<And>u u'. Q u \<Longrightarrow>
           AddRepo u ((TeamRepo.Repo tr)\<lparr>Repo.Level := TeamRepo.Level tr\<rparr>) = Return u' \<Longrightarrow> Q u'"
  shows "kept Q name p a'"
proof -
  let ?a0 = "a\<lparr>fresh := Suc (fresh a)\<rparr>"
  let ?I = "\<lambda>t. kept Q name p t \<and> fresh a < fresh t"
  have loop: "for_each (auditTeam_member sem (fresh a)
      ((TeamRepo.Repo tr)\<lparr>Repo.Level := TeamRepo.Level tr\<rparr>)) users ?a0 = Return a'"
    using assms(1) by (simp add: auditTeam_repo_def Let_def)
  have p: "p < fresh a" using assms(2) by (auto simp: kept_def wf_auditor_def)
  have "?I ?a0" using assms(2) by (auto simp: kept_def wf_auditor_def less_Suc_eq)
  have "?I a'"
    by (rule for_each_invariant [where I = ?I, OF loop])
       (fact, use auditTeam_member_kept p st in blast)
  then show ?thesis by simp
qed

lemma auditTeam_kept:
  assumes "auditTeam sem w orgName team a = Return (e, a')"
    and "kept Q name p a"
    and st: "\<And>u r u'. team_grant w r \<Longrightarrow> Q u \<Longrightarrow> AddRepo u r = Return u' \<Longrightarrow> Q u'"
  shows "kept Q name p a'"
proof (cases "fetchReposForTeam w orgName (Team.Name team)")
  case (Inl err)
  then show ?thesis using assms(1,2) by (simp add: auditTeam_def)
next
  case repos: (Inr repos)
  show ?thesis
  proof (cases "fetchMembersForTeam w orgName (Team.Name team)")
    case (Inl err)
    then show ?thesis using assms(1,2) repos by (simp add: auditTeam_def)
  next
    case (Inr users)
    then have loop: "for_each (auditTeam_repo sem users) repos a = Return a'"
      using assms(1) repos by (simp add: auditTeam_def split: outcome.splits)
    have grant: "team_grant w ((TeamRepo.Repo tr)\<lparr>Repo.Level := TeamRepo.Level tr\<rparr>)"
      if "tr \<in> set repos" for tr
      using repos that by (auto simp: team_grant_def)
    show ?thesis
    proof (rule for_each_invariant [where I = "kept Q name p", OF loop])
      show "kept Q name p a" by (fact assms(2))
    next
      fix tr t t'
      assume "tr \<in> set repos" "kept Q name p t" "auditTeam_repo sem users tr t = Return t'"
      then show "kept Q name p t'"
        using auditTeam_repo_kept [of sem users tr t t' Q name p] st grant by blast
    qed
  qed
qed

lemma auditOrgs_team_kept:
  assumes "auditOrgs_team sem w orgName team a = Return (e, a')"
    and "kept Q name p a"
    and st: "\<And>u r u'. team_grant w r \<Longrightarrow> Q u \<Longrightarrow> AddRepo u r = Return u' \<Longrightarrow> Q u'"
  shows "kept Q name p a'"
proof -
  from assms(1) obtain e1 where "auditTeam sem w orgName team a = Return (e1, a')"
    by (auto simp: auditOrgs_team_def split: outcome.splits option.splits)
  then show ?thesis using auditTeam_kept assms(2) st by blast
qed

lemma auditOrgs_org_kept:
  assumes "auditOrgs_org sem w orgName a = Return (e, a')"
    and "kept Q name p a"
    and st: "\<And>u r u'. team_grant w r \<Longrightarrow> Q u \<Longrightarrow> AddRepo u r = Return u' \<Longrightarrow> Q u'"
  shows "kept Q name p a'"
proof (cases "fetchTeamsForOrg w orgName")
  case (Inl err)
  then show ?thesis using assms(1,2) by (simp add: auditOrgs_org_def)
next
  case (Inr teams)
  then have loop: "for_each_err (auditOrgs_team sem w orgName) teams a = Return (e, a')"
    using assms(1) by (simp add: auditOrgs_org_def)
  show ?thesis
    by (rule for_each_err_invariant [where I = "kept Q name p", OF loop])
       (use assms(2) auditOrgs_team_kept st in \<open>blast+\<close>)
qed

lemma auditOrgs_kept:
  assumes "auditOrgs sem w a = Return (e, a')"
    and "kept Q name p a"
    and st: "\<And>u r u'. team_grant w r \<Longrightarrow> Q u \<Longrightarrow> AddRepo u r = Return u' \<Longrightarrow> Q u'"
  shows "kept Q name p a'"
  by (rule for_each_err_invariant [where I = "kept Q name p", OF assms(1) [unfolded auditOrgs_def]])
     (use assms(2) auditOrgs_org_kept st in \<open>blast+\<close>)

lemma auditRemainingAccounts_acc_kept:
  assumes "auditRemainingAccounts_acc acc a = Return a'"
    and "kept Q name p a"
    and "\<And>u b i. Q u \<Longrightarrow> Q (u\<lparr>User.IsAdmin := b, User.ID := i\<rparr>)"
  shows "kept Q name p a'"
  using assms
  unfolding auditRemainingAccounts_acc_def kept_def wf_auditor_def
  by (auto split: option.splits if_splits, (blast intro: less_SucI)+)

lemma auditRemainingAccounts_kept:
  assumes "auditRemainingAccounts w a = Return (e, a')"
    and "kept Q name p a"
    and st: "\<And>u b i. Q u \<Longrightarrow> Q (u\<lparr>User.IsAdmin := b, User.ID := i\<rparr>)"
  shows "kept Q name p a'"
proof (cases "fetchAccounts w")
  case (Inl err)
  then show ?thesis using assms(1,2) by (simp add: auditRemainingAccounts_def)
next
  case (Inr accts)
  then have loop: "for_each auditRemainingAccounts_acc accts a = Return a'"
    using assms(1) by (simp add: auditRemainingAccounts_def split: outcome.splits)
  show ?thesis
    by (rule for_each_invariant [where I = "kept Q name p", OF loop])
       (use assms(2) auditRemainingAccounts_acc_kept st in \<open>blast+\<close>)
qed

lemma Run_stages:
  assumes "Run admin sem w a = Return (None, a')"
  obtains a1 a2 where "auditAllRepos admin w a = Return (None, a1)"
    and "auditOrgs sem w a1 = Return (None, a2)"
    and "auditRemainingAccounts w a2 = Return (None, a')"
  using assms
  by (auto simp: Run_def chain_def split: outcome.splits option.splits)

section \<open>Stage 1 registers the owner with Admin\<close>

lemma note_public_fields [simp]:
  "Users (note_public r a) = Users a"
  "Orgs (note_public r a) = Orgs a"
  "store (note_public r a) = store a"
  "fresh (note_public r a) = fresh a"
  by (simp_all add: note_public_def)

lemma wf_auditor_note_public [simp]: "wf_auditor (note_public r a) = wf_auditor a"
  by (simp add: wf_auditor_def)

lemma kept_note_public [simp]: "kept Q name p (note_public r a) = kept Q name p a"
  by (simp add: kept_def)

lemma assign_repo_at_Return:
  assumes "assign_repo_at p r a = Return a'"
  obtains m where "User.Repos (store a p) = Some m"
    and "a' = a\<lparr>store := (store a)(p := (store a p)\<lparr>User.Repos := Some (m(Repo.Name r \<mapsto> r))\<rparr>)\<rparr>"
  using assms by (auto simp: assign_repo_at_def split: option.splits)

text \<open>What one iteration of stage 1 does to the registry of users.\<close>

lemma auditAllRepos_repo_cases:
  assumes "auditAllRepos_repo admin repo a = Return a'"
  obtains
    (org) "Repo.AccountType repo = AccountTypeOrg"
      "Users a' = Users a" "store a' = store a" "fresh a' = fresh a"
  | (known) p m where "Repo.AccountType repo \<noteq> AccountTypeOrg"
      "Users a (Repo.AccountName repo) = Some p" "User.Repos (store a p) = Some m"
      "Users a' = Users a" "fresh a' = fresh a"
      "store a' = (store a)(p := (store a p)\<lparr>User.Repos :=
          Some (m(Repo.Name repo \<mapsto> repo\<lparr>Repo.Level := admin\<rparr>))\<rparr>)"
  | (new) "Repo.AccountType repo \<noteq> AccountTypeOrg"
      "Users a (Repo.AccountName repo) = None"
      "Users a' = (Users a)(Repo.AccountName repo \<mapsto> fresh a)" "fresh a' = Suc (fresh a)"
      "store a' = (store a)(fresh a :=
          \<lparr>User.ID = [], Name = Repo.AccountName repo, IsAdmin = False,
           Repos = Some [Repo.Name repo \<mapsto> repo\<lparr>Repo.Level := admin\<rparr>]\<rparr>)"
proof (cases "Repo.AccountType repo = AccountTypeOrg")
  case True
  then show ?thesis using assms org
    by (auto simp: auditAllRepos_repo_def split: option.splits)
next
  case False
  show ?thesis
  proof (cases "Users a (Repo.AccountName repo)")
    case None
    then show ?thesis using assms False new
      by (auto simp: auditAllRepos_repo_def assign_repo_at_def Let_def split: outcome.splits)
  next
    case (Some p)
    then show ?thesis using assms False known [of p]
      by (auto simp: auditAllRepos_repo_def assign_repo_at_def Let_def split: outcome.splits option.splits)
  qed
qed

lemma auditAllRepos_repo_wf:
  assumes "auditAllRepos_repo admin repo a = Return a'" and "wf_auditor a"
  shows "wf_auditor a'"
  using assms(1)
proof (cases rule: auditAllRepos_repo_cases)
  case org
  then show ?thesis using assms(2) by (simp add: wf_auditor_def)
next
  case (known p m)
  then show ?thesis using assms(2) by (simp add: wf_auditor_def)
next
  case new
  then show ?thesis using assms(2) by (auto simp: wf_auditor_def intro: less_SucI)
qed

lemma auditAllRepos_repo_kept:
  assumes "auditAllRepos_repo admin repo a = Return a'"
    and "kept Q name p a"
    and st: "\<And>u m r. Q u \<Longrightarrow> User.Repos u = Some m \<Longrightarrow> Repo.Level r = admin \<Longrightarrow>
           Q (u\<lparr>User.Repos := Some (m(Repo.Name r \<mapsto> r))\<rparr>)"
  shows "kept Q name p a'"
  using assms(1)
proof (cases rule: auditAllRepos_repo_cases)
  case org
  then show ?thesis using assms(2) by (simp add: kept_def wf_auditor_def)
next
  case (known q m)
  have "Q ((store a q)\<lparr>User.Repos := Some (m(Repo.Name repo \<mapsto> repo\<lparr>Repo.Level := admin\<rparr>))\<rparr>)"
    if "q = p"
    using st [of "store a q" m "repo\<lparr>Repo.Level := admin\<rparr>"] assms(2) known(3) that
    by (simp add: kept_def)
  then show ?thesis using assms(2) known by (auto simp: kept_def wf_auditor_def)
next
  case new
  have "p < fresh a" using assms(2) by (auto simp: kept_def wf_auditor_def)
  then show ?thesis using assms(2) new by (auto simp: kept_def wf_auditor_def intro: less_SucI)
qed

lemma auditAllRepos_repo_owner:
  assumes "auditAllRepos_repo admin repo a = Return a'" and "wf_auditor a"
    and "Repo.AccountType repo \<noteq> AccountTypeOrg"
  shows "\<exists>p. kept (\<lambda>u. stored_level u (Repo.Name repo) = Some admin) (Repo.AccountName repo) p a'"
  using assms(1)
proof (cases rule: auditAllRepos_repo_cases)
  case org
  then show ?thesis using assms(3) by simp
next
  case (known p m)
  then show ?thesis using assms(2) by (auto simp: kept_def wf_auditor_def stored_level_def)
next
  case new
  then show ?thesis using assms(2)
    by (auto simp: kept_def wf_auditor_def stored_level_def intro: less_SucI)
qed

lemma Admin_top: "l \<le> Admin"
  by (cases l) (simp_all add: less_eq_Access_def)

lemma has_admin_AddRepo:
  assumes "stored_level u k = Some admin" and "Repo.Level r \<le> admin"
    and "AddRepo u r = Return u'"
  shows "stored_level u' k = Some admin"
proof -
  have "User.Repos u \<noteq> None" using assms(1) by (auto simp: stored_level_def split: option.splits)
  from AddRepo_stored_level [OF this, of r] assms(3)
  have "stored_level u' k =
          (if k = Repo.Name r then merge_level (stored_level u k) (Repo.Level r)
           else stored_level u k)" by auto
  then show ?thesis using assms(1,2) by (auto simp: merge_level_def)
qed

lemma has_admin_assign:
  assumes "stored_level u k = Some admin" and "User.Repos u = Some m" and "Repo.Level r = admin"
  shows "stored_level (u\<lparr>User.Repos := Some (m(Repo.Name r \<mapsto> r))\<rparr>) k = Some admin"
  using assms by (auto simp: stored_level_def)

lemma has_admin_flags:
  "stored_level u k = Some admin \<Longrightarrow>
     stored_level (u\<lparr>User.IsAdmin := b, User.ID := i\<rparr>) k = Some admin"
  by (simp add: stored_level_def)

lemma auditAllRepos_owner:
  assumes run: "auditAllRepos admin w a = Return (None, a')" and wf: "wf_auditor a"
    and repos: "fetchAllRepos w = Inr repos" and r: "r \<in> set repos"
    and user: "Repo.AccountType r \<noteq> AccountTypeOrg"
  shows "\<exists>p. kept (\<lambda>u. stored_level u (Repo.Name r) = Some admin) (Repo.AccountName r) p a'"
proof -
  let ?Q = "\<lambda>u. stored_level u (Repo.Name r) = Some admin"
  have loop: "for_each (auditAllRepos_repo admin) repos a = Return a'"
    using run repos by (simp add: auditAllRepos_def split: outcome.splits)
  have "wf_auditor a' \<and> (\<exists>p. kept ?Q (Repo.AccountName r) p a')"
  proof (rule for_each_establishes [where I = wf_auditor, OF loop r wf])
    show "\<And>y t t'. wf_auditor t \<Longrightarrow> auditAllRepos_repo admin y t = Return t' \<Longrightarrow> wf_auditor t'"
      using auditAllRepos_repo_wf by blast
    show "\<And>t t'. wf_auditor t \<Longrightarrow> auditAllRepos_repo admin r t = Return t' \<Longrightarrow>
            \<exists>p. kept ?Q (Repo.AccountName r) p t'"
      using auditAllRepos_repo_owner user by blast
    show "\<And>y t t'. \<exists>p. kept ?Q (Repo.AccountName r) p t \<Longrightarrow>
            auditAllRepos_repo admin y t = Return t' \<Longrightarrow> \<exists>p. kept ?Q (Repo.AccountName r) p t'"
      using auditAllRepos_repo_kept [where Q = ?Q] has_admin_assign by blast
  qed
  then show ?thesis by simp
qed

text \<open>
  C1 (ownership supremacy). Start from any registry whose pointers are allocated
  addresses; it may already hold grants of any level for any account. Let the level
  of every team grant be lower than or equal to \<open>admin\<close> in the order of the
  levels (with the order of the spec, \<open>Read < Write < Admin\<close>, every level is).
  If the run returns without error and the repository listing has a repository
  \<open>r\<close> whose owner is not an organization, then in the report the owner's record
  stores \<open>admin\<close> for the name of \<open>r\<close>, whatever the teams grant and under
  either meaning of the iteration variable of \<open>auditTeam\<close>.
\<close>

theorem ownership_supremacy:
  assumes "wf_auditor a"
    and "Run admin sem w a = Return (None, a')"
    and "fetchAllRepos w = Inr repos" and "r \<in> set repos"
    and "Repo.AccountType r \<noteq> AccountTypeOrg"
    and lower: "\<And>orgName teamName grants tr.
           fetchReposForTeam w orgName teamName = Inr grants \<Longrightarrow> tr \<in> set grants \<Longrightarrow>
           TeamRepo.Level tr \<le> admin"
  shows "\<exists>u. report_users a' (Repo.AccountName r) = Some u \<and>
           stored_level u (Repo.Name r) = Some admin"
proof -
  let ?Q = "\<lambda>u. stored_level u (Repo.Name r) = Some admin"
  from assms(2) obtain a1 a2 where
    s1: "auditAllRepos admin w a = Return (None, a1)"
    and s2: "auditOrgs sem w a1 = Return (None, a2)"
    and s3: "auditRemainingAccounts w a2 = Return (None, a')"
    by (rule Run_stages)
  from auditAllRepos_owner [OF s1 assms(1,3,4,5)] obtain p where
    k1: "kept ?Q (Repo.AccountName r) p a1" by blast
  have "Repo.Level g \<le> admin" if "team_grant w g" for g
    using that lower by (auto simp: team_grant_def)
  then have k2: "kept ?Q (Repo.AccountName r) p a2"
    using auditOrgs_kept [OF s2 k1] has_admin_AddRepo by blast
  have k3: "kept ?Q (Repo.AccountName r) p a'"
    using auditRemainingAccounts_kept [OF s3 k2] has_admin_flags by blast
  then show ?thesis by (simp add: kept_def report_users_def)
qed

theorem ownership_supremacy_witness:
  "\<exists>a' u. Run Admin PerLoop demo a0 = Return (None, a') \<and>
      report_users a' ''alice'' = Some u \<and> stored_level u ''proj'' = Some Admin"
proof -
  obtain a' where run: "Run Admin PerLoop demo a0 = Return (None, a')"
    using demo_runs by blast
  have wf: "wf_auditor a0" by (simp add: wf_auditor_def a0_def NewAuditor_def)
  have repos: "fetchAllRepos demo = Inr
      [repo_of ''alice'' AccountTypeUser ''proj'' VisibilityPrivate,
       repo_of ''acme'' AccountTypeOrg ''infra'' VisibilityPrivate,
       repo_of ''erin'' AccountTypeUser ''tool'' VisibilityPublic]"
    by (simp add: fetchAllRepos_def demo_def)
  have "\<exists>u. report_users a' (Repo.AccountName (repo_of ''alice'' AccountTypeUser ''proj'' VisibilityPrivate)) = Some u \<and>
           stored_level u (Repo.Name (repo_of ''alice'' AccountTypeUser ''proj'' VisibilityPrivate)) = Some Admin"
    by (rule ownership_supremacy [OF wf run repos _ _ Admin_top])
       (simp_all add: repo_of_def AccountTypeOrg_def AccountTypeUser_def)
  then show ?thesis using run by (simp add: repo_of_def)
qed

section \<open>The registry of organizations\<close>

lemma auditAllRepos_repo_Orgs:
  assumes "auditAllRepos_repo admin repo a = Return a'"
  shows "Orgs a' =
           (if Repo.AccountType repo = AccountTypeOrg \<and> Orgs a (Repo.AccountName repo) = None
            then (Orgs a)(Repo.AccountName repo \<mapsto>
                   \<lparr>Org.ID = [], Name = Repo.AccountName repo, Teams = []\<rparr>)
            else Orgs a)"
  using assms
  by (auto simp: auditAllRepos_repo_def assign_repo_at_def Let_def
           split: option.splits outcome.splits if_splits)

lemma auditTeam_member_Orgs:
  assumes "auditTeam_member sem slot repo m a = Return a'"
  shows "Orgs a' = Orgs a"
  using assms
  unfolding auditTeam_member_def AddRepo_at_def Let_def
  by (cases sem) (auto split: option.splits outcome.splits)

lemma auditTeam_repo_Orgs:
  assumes "auditTeam_repo sem users tr a = Return a'"
  shows "Orgs a' = Orgs a"
proof -
  have loop: "for_each (auditTeam_member sem (fresh a)
      ((TeamRepo.Repo tr)\<lparr>Repo.Level := TeamRepo.Level tr\<rparr>)) users
      (a\<lparr>fresh := Suc (fresh a)\<rparr>) = Return a'"
    using assms by (simp add: auditTeam_repo_def Let_def)
  show ?thesis
    by (rule for_each_invariant [where I = "\<lambda>t. Orgs t = Orgs a", OF loop])
       (auto dest: auditTeam_member_Orgs)
qed

lemma auditTeam_Orgs:
  assumes "auditTeam sem w orgName team a = Return (e, a')"
  shows "Orgs a' = Orgs a"
proof (cases "fetchReposForTeam w orgName (Team.Name team)")
  case (Inl err)
  then show ?thesis using assms by (simp add: auditTeam_def)
next
  case repos: (Inr repos)
  show ?thesis
  proof (cases "fetchMembersForTeam w orgName (Team.Name team)")
    case (Inl err)
    then show ?thesis using assms repos by (simp add: auditTeam_def)
  next
    case (Inr users)
    then have loop: "for_each (auditTeam_repo sem users) repos a = Return a'"
      using assms repos by (simp add: auditTeam_def split: outcome.splits)
    show ?thesis
      by (rule for_each_invariant [where I = "\<lambda>t. Orgs t = Orgs a", OF loop])
         (auto dest: auditTeam_repo_Orgs)
  qed
qed

lemma auditOrgs_team_Orgs:
  assumes "auditOrgs_team sem w orgName team a = Return (e, a')"
  shows "Orgs a' = Orgs a"
proof -
  from assms obtain e1 where "auditTeam sem w orgName team a = Return (e1, a')"
    by (auto simp: auditOrgs_team_def split: outcome.splits option.splits)
  then show ?thesis by (rule auditTeam_Orgs)
qed

lemma auditOrgs_org_Orgs:
  assumes "auditOrgs_org sem w orgName a = Return (e, a')"
  shows "Orgs a' = Orgs a"
proof (cases "fetchTeamsForOrg w orgName")
  case (Inl err)
  then show ?thesis using assms by (simp add: auditOrgs_org_def)
next
  case (Inr teams)
  then have loop: "for_each_err (auditOrgs_team sem w orgName) teams a = Return (e, a')"
    using assms by (simp add: auditOrgs_org_def)
  show ?thesis
    by (rule for_each_err_invariant [where I = "\<lambda>t. Orgs t = Orgs a", OF loop])
       (auto dest: auditOrgs_team_Orgs)
qed

lemma auditOrgs_Orgs:
  assumes "auditOrgs sem w a = Return (e, a')"
  shows "Orgs a' = Orgs a"
  by (rule for_each_err_invariant [where I = "\<lambda>t. Orgs t = Orgs a",
        OF assms [unfolded auditOrgs_def]])
     (auto dest: auditOrgs_org_Orgs)

lemma auditRemainingAccounts_acc_Orgs:
  assumes "auditRemainingAccounts_acc acc a = Return a'" and "Orgs a name = Some org"
  shows "Orgs a' name = Some org"
  using assms
  by (auto simp: auditRemainingAccounts_acc_def split: option.splits if_splits)

lemma auditRemainingAccounts_Orgs:
  assumes "auditRemainingAccounts w a = Return (e, a')" and "Orgs a name = Some org"
  shows "Orgs a' name = Some org"
proof (cases "fetchAccounts w")
  case (Inl err)
  then show ?thesis using assms by (simp add: auditRemainingAccounts_def)
next
  case (Inr accts)
  then have loop: "for_each auditRemainingAccounts_acc accts a = Return a'"
    using assms(1) by (simp add: auditRemainingAccounts_def split: outcome.splits)
  show ?thesis
    by (rule for_each_invariant [where I = "\<lambda>t. Orgs t name = Some org", OF loop])
       (use assms(2) auditRemainingAccounts_acc_Orgs in auto)
qed

lemma auditAllRepos_Orgs:
  assumes run: "auditAllRepos admin w a = Return (None, a')"
    and fresh_name: "Orgs a (Repo.AccountName r) = None"
    and repos: "fetchAllRepos w = Inr repos" and r: "r \<in> set repos"
    and org: "Repo.AccountType r = AccountTypeOrg"
  shows "Orgs a' (Repo.AccountName r) =
           Some \<lparr>Org.ID = [], Name = Repo.AccountName r, Teams = []\<rparr>"
proof -
  let ?n = "Repo.AccountName r"
  let ?org = "\<lparr>Org.ID = [], Name = ?n, Teams = []\<rparr>"
  let ?I = "\<lambda>t. Orgs t ?n = None \<or> Orgs t ?n = Some ?org"
  let ?P = "\<lambda>t. Orgs t ?n = Some ?org"
  have loop: "for_each (auditAllRepos_repo admin) repos a = Return a'"
    using run repos by (simp add: auditAllRepos_def split: outcome.splits)
  have "?I a' \<and> ?P a'"
  proof (rule for_each_establishes [where I = ?I and P = ?P, OF loop r])
    show "?I a" using fresh_name by simp
    show "\<And>y t t'. ?I t \<Longrightarrow> auditAllRepos_repo admin y t = Return t' \<Longrightarrow> ?I t'"
      by (auto dest!: auditAllRepos_repo_Orgs split: if_splits)
    show "\<And>t t'. ?I t \<Longrightarrow> auditAllRepos_repo admin r t = Return t' \<Longrightarrow> ?P t'"
      using org by (auto dest!: auditAllRepos_repo_Orgs split: if_splits)
    show "\<And>y t t'. ?P t \<Longrightarrow> auditAllRepos_repo admin y t = Return t' \<Longrightarrow> ?P t'"
      by (auto dest!: auditAllRepos_repo_Orgs split: if_splits)
  qed
  then show ?thesis by simp
qed

text \<open>
  C10. Start from a registry that does not know the organization yet, as the one
  \<open>NewAuditor\<close> makes. If the run returns without error and the repository listing
  has a repository owned by an organization, the final registry of organizations
  holds, under the owner's name, the record stage 1 made: the name only, with the
  empty identifier, whatever identifier the account listing carries for it.
\<close>

theorem owning_org_keeps_empty_ID:
  assumes "Orgs a (Repo.AccountName r) = None"
    and "Run admin sem w a = Return (None, a')"
    and "fetchAllRepos w = Inr repos" and "r \<in> set repos"
    and "Repo.AccountType r = AccountTypeOrg"
  shows "Orgs a' (Repo.AccountName r) =
           Some \<lparr>Org.ID = [], Name = Repo.AccountName r, Teams = []\<rparr>"
proof -
  from assms(2) obtain a1 a2 where
    s1: "auditAllRepos admin w a = Return (None, a1)"
    and s2: "auditOrgs sem w a1 = Return (None, a2)"
    and s3: "auditRemainingAccounts w a2 = Return (None, a')"
    by (rule Run_stages)
  have "Orgs a1 (Repo.AccountName r) =
          Some \<lparr>Org.ID = [], Name = Repo.AccountName r, Teams = []\<rparr>"
    by (rule auditAllRepos_Orgs [OF s1 assms(1,3,4,5)])
  then have "Orgs a2 (Repo.AccountName r) =
          Some \<lparr>Org.ID = [], Name = Repo.AccountName r, Teams = []\<rparr>"
    using auditOrgs_Orgs [OF s2] by simp
  then show ?thesis by (rule auditRemainingAccounts_Orgs [OF s3])
qed

theorem owning_org_keeps_empty_ID_witness:
  "\<exists>a'. Run Admin PerLoop demo a0 = Return (None, a') \<and>
      Orgs a' ''acme'' = Some \<lparr>Org.ID = [], Name = ''acme'', Teams = []\<rparr> \<and>
      fetchAccounts demo = Inr
        [\<lparr>Account.ID = ''7'', Name = ''acme'', IsOrg = True, IsAdmin = False\<rparr>,
         \<lparr>Account.ID = ''1'', Name = ''alice'', IsOrg = False, IsAdmin = False\<rparr>,
         \<lparr>Account.ID = ''4'', Name = ''dave'', IsOrg = False, IsAdmin = True\<rparr>]"
proof -
  obtain a' where run: "Run Admin PerLoop demo a0 = Return (None, a')"
    using demo_runs by blast
  have none: "Orgs a0 (Repo.AccountName (repo_of ''acme'' AccountTypeOrg ''infra'' VisibilityPrivate)) = None"
    by (simp add: a0_def NewAuditor_def)
  have repos: "fetchAllRepos demo = Inr
      [repo_of ''alice'' AccountTypeUser ''proj'' VisibilityPrivate,
       repo_of ''acme'' AccountTypeOrg ''infra'' VisibilityPrivate,
       repo_of ''erin'' AccountTypeUser ''tool'' VisibilityPublic]"
    by (simp add: fetchAllRepos_def demo_def)
  have "Orgs a' (Repo.AccountName (repo_of ''acme'' AccountTypeOrg ''infra'' VisibilityPrivate)) =
      Some \<lparr>Org.ID = [],
            Name = Repo.AccountName (repo_of ''acme'' AccountTypeOrg ''infra'' VisibilityPrivate),
            Teams = []\<rparr>"
    by (rule owning_org_keeps_empty_ID [OF none run repos]) (simp_all add: repo_of_def)
  then show ?thesis using run by (simp add: repo_of_def fetchAccounts_def demo_def)
qed

section \<open>Stage 3 on a known user\<close>

lemma auditRemainingAccounts_acc_known:
  assumes "\<not> Account.IsOrg acc" and "Users a (Account.Name acc) = Some p"
  shows "auditRemainingAccounts_acc acc a =
           Return (a\<lparr>store := (store a)(p :=
             (store a p)\<lparr>User.IsAdmin := Account.IsAdmin acc, User.ID := Account.ID acc\<rparr>)\<rparr>)"
  using assms by (simp add: auditRemainingAccounts_acc_def)

text \<open>
  C7. Take a user registered at an allocated address when stage 3 starts. Whatever
  the account listing holds, after stage 3 the user is registered at the same address
  and the name and the permission mapping of the record are what they were.
  Processing one entry of the listing whose name is a registered user writes the
  entry's admin flag and identifier into that user's record and changes nothing else
  in the state.
\<close>

theorem stage3_overwrites_flag_and_ID_only:
  fixes a :: "'l::linorder Auditor"
  assumes "wf_auditor a" and "Users a name = Some p"
    and "auditRemainingAccounts w a = Return (e, a')"
  shows "Users a' name = Some p \<and>
         User.Name (store a' p) = User.Name (store a p) \<and>
         User.Repos (store a' p) = User.Repos (store a p) \<and>
         (\<forall>acc (t :: 'l Auditor) q.
            \<not> Account.IsOrg acc \<longrightarrow> Users t (Account.Name acc) = Some q \<longrightarrow>
            auditRemainingAccounts_acc acc t =
              Return (t\<lparr>store := (store t)(q :=
                (store t q)\<lparr>User.IsAdmin := Account.IsAdmin acc, User.ID := Account.ID acc\<rparr>)\<rparr>))"
proof -
  let ?Q = "\<lambda>u. User.Name u = User.Name (store a p) \<and> User.Repos u = User.Repos (store a p)"
  have "kept ?Q name p a" using assms(1,2) by (simp add: kept_def)
  then have "kept ?Q name p a'"
    by (rule auditRemainingAccounts_kept [OF assms(3)]) simp
  then show ?thesis by (simp add: kept_def auditRemainingAccounts_acc_known)
qed

theorem stage3_overwrites_flag_and_ID_only_witness:
  "\<exists>a'. auditRemainingAccounts demo known_alice = Return (None, a') \<and>
      Users a' ''alice'' = Some 0 \<and>
      User.Name (store a' 0) = ''alice'' \<and>
      stored_level (store a' 0) ''proj'' = Some Admin \<and>
      User.ID (store a' 0) = ''1''"
proof -
  have run: "\<exists>a'. auditRemainingAccounts demo known_alice = Return (None, a') \<and>
      User.ID (store a' 0) = ''1''"
    by (simp add: known_alice_def demo_def eval_defs)
  then obtain a' where a': "auditRemainingAccounts demo known_alice = Return (None, a')"
    "User.ID (store a' 0) = ''1''" by blast
  have wf: "wf_auditor known_alice" by (simp add: wf_auditor_def known_alice_def)
  have reg: "Users known_alice ''alice'' = Some 0" by (simp add: known_alice_def)
  from stage3_overwrites_flag_and_ID_only [OF wf reg a'(1)]
  have "Users a' ''alice'' = Some 0 \<and>
        User.Name (store a' 0) = User.Name (store known_alice 0) \<and>
        User.Repos (store a' 0) = User.Repos (store known_alice 0)" by blast
  then have "Users a' ''alice'' = Some 0 \<and> User.Name (store a' 0) = ''alice'' \<and>
        stored_level (store a' 0) ''proj'' = Some Admin"
    by (simp add: known_alice_def stored_level_def repo_of_def)
  then show ?thesis using a' by blast
qed

section \<open>Which names the registry of users holds\<close>

lemma auditTeam_member_wf:
  assumes "auditTeam_member sem slot repo m a = Return a'"
    and "wf_auditor a" and "slot < fresh a"
  shows "wf_auditor a' \<and> slot < fresh a' \<and>
         (\<exists>p. kept (\<lambda>_. True) (User.Name (TeamMember.User m)) p a')"
  using assms
  unfolding auditTeam_member_def AddRepo_at_def kept_def wf_auditor_def Let_def
  by (cases sem) (auto split: option.splits outcome.splits if_splits, (blast intro: less_SucI)+)

lemma auditTeam_repo_registers:
  assumes run: "auditTeam_repo sem users tr a = Return a'" and wf: "wf_auditor a"
  shows "wf_auditor a'"
    and "m \<in> set users \<Longrightarrow> \<exists>p. kept (\<lambda>_. True) (User.Name (TeamMember.User m)) p a'"
proof -
  let ?a0 = "a\<lparr>fresh := Suc (fresh a)\<rparr>"
  let ?body = "auditTeam_member sem (fresh a)
      ((TeamRepo.Repo tr)\<lparr>Repo.Level := TeamRepo.Level tr\<rparr>)"
  let ?I = "\<lambda>t. wf_auditor t \<and> fresh a < fresh t"
  let ?P = "\<lambda>t. \<exists>p. kept (\<lambda>_. True) (User.Name (TeamMember.User m)) p t"
  have loop: "for_each ?body users ?a0 = Return a'"
    using run by (simp add: auditTeam_repo_def Let_def)
  have I0: "?I ?a0" using wf by (auto simp: wf_auditor_def intro: less_SucI)
  have inv: "\<And>y t t'. ?I t \<Longrightarrow> ?body y t = Return t' \<Longrightarrow> ?I t'"
    using auditTeam_member_wf by blast
  show "wf_auditor a'"
    using for_each_invariant [where I = ?I, OF loop I0] inv by blast
  show "?P a'" if m: "m \<in> set users"
  proof -
    have "?I a' \<and> ?P a'"
    proof (rule for_each_establishes [where I = ?I and P = ?P, OF loop m I0])
      show "\<And>y t t'. ?I t \<Longrightarrow> ?body y t = Return t' \<Longrightarrow> ?I t'" by (rule inv)
      show "\<And>t t'. ?I t \<Longrightarrow> ?body m t = Return t' \<Longrightarrow> ?P t'"
        using auditTeam_member_wf by blast
      show "\<And>y t t'. ?I t \<Longrightarrow> ?P t \<Longrightarrow> ?body y t = Return t' \<Longrightarrow> ?P t'"
      proof -
        fix y t t'
        assume I: "?I t" and P: "?P t" and step: "?body y t = Return t'"
        from P obtain p where k: "kept (\<lambda>_. True) (User.Name (TeamMember.User m)) p t" by blast
        then have "p < fresh t" by (auto simp: kept_def wf_auditor_def)
        have "wf_auditor t'" using inv [OF I step] by simp
        moreover have "Users t' (User.Name (TeamMember.User m)) \<noteq> None"
          using step k unfolding auditTeam_member_def AddRepo_at_def kept_def Let_def
          by (cases sem) (auto split: option.splits outcome.splits if_splits)
        ultimately show "?P t'" by (auto simp: kept_def)
      qed
    qed
    then show ?thesis by simp
  qed
qed

lemma auditTeam_repo_keeps_name:
  assumes "auditTeam_repo sem users tr a = Return a'" and "\<exists>p. kept (\<lambda>_. True) name p a"
  shows "\<exists>p. kept (\<lambda>_. True) name p a'"
  using assms auditTeam_repo_kept [where Q = "\<lambda>_. True"] by blast

lemma auditTeam_registers:
  assumes run: "auditTeam sem w orgName team a = Return (e, a')" and wf: "wf_auditor a"
  shows "wf_auditor a'"
    and "e = None \<Longrightarrow> fetchReposForTeam w orgName (Team.Name team) = Inr (tr # trs) \<Longrightarrow>
         fetchMembersForTeam w orgName (Team.Name team) = Inr ms \<Longrightarrow> m \<in> set ms \<Longrightarrow>
         \<exists>p. kept (\<lambda>_. True) (User.Name (TeamMember.User m)) p a'"
proof -
  show "wf_auditor a'"
  proof (cases "fetchReposForTeam w orgName (Team.Name team)")
    case (Inl err)
    then show ?thesis using run wf by (simp add: auditTeam_def)
  next
    case repos: (Inr repos)
    show ?thesis
    proof (cases "fetchMembersForTeam w orgName (Team.Name team)")
      case (Inl err)
      then show ?thesis using run wf repos by (simp add: auditTeam_def)
    next
      case (Inr users)
      then have loop: "for_each (auditTeam_repo sem users) repos a = Return a'"
        using run repos by (simp add: auditTeam_def split: outcome.splits)
      show ?thesis
        by (rule for_each_invariant [where I = wf_auditor, OF loop wf])
           (use auditTeam_repo_registers(1) in blast)
    qed
  qed
  show "\<exists>p. kept (\<lambda>_. True) (User.Name (TeamMember.User m)) p a'"
    if "e = None" and repos: "fetchReposForTeam w orgName (Team.Name team) = Inr (tr # trs)"
      and ms: "fetchMembersForTeam w orgName (Team.Name team) = Inr ms" and m: "m \<in> set ms"
  proof -
    let ?P = "\<lambda>t. \<exists>p. kept (\<lambda>_. True) (User.Name (TeamMember.User m)) p t"
    have loop: "for_each (auditTeam_repo sem ms) (tr # trs) a = Return a'"
      using run repos ms by (simp add: auditTeam_def split: outcome.splits)
    have tr: "tr \<in> set (tr # trs)" by simp
    have "wf_auditor a' \<and> ?P a'"
    proof (rule for_each_establishes [where I = wf_auditor and P = ?P, OF loop tr wf])
      show "\<And>y t t'. wf_auditor t \<Longrightarrow> auditTeam_repo sem ms y t = Return t' \<Longrightarrow> wf_auditor t'"
        using auditTeam_repo_registers(1) by blast
      show "\<And>t t'. wf_auditor t \<Longrightarrow> auditTeam_repo sem ms tr t = Return t' \<Longrightarrow> ?P t'"
        using auditTeam_repo_registers(2) m by blast
      show "\<And>y t t'. ?P t \<Longrightarrow> auditTeam_repo sem ms y t = Return t' \<Longrightarrow> ?P t'"
        using auditTeam_repo_keeps_name by blast
    qed
    then show ?thesis by simp
  qed
qed


lemma auditOrgs_team_registers:
  assumes run: "auditOrgs_team sem w orgName team a = Return (e, a')" and wf: "wf_auditor a"
  shows "wf_auditor a'"
    and "e = None \<Longrightarrow> fetchReposForTeam w orgName (Team.Name team) = Inr (tr # trs) \<Longrightarrow>
         fetchMembersForTeam w orgName (Team.Name team) = Inr ms \<Longrightarrow> m \<in> set ms \<Longrightarrow>
         \<exists>p. kept (\<lambda>_. True) (User.Name (TeamMember.User m)) p a'"
proof -
  from run obtain e1 where inner: "auditTeam sem w orgName team a = Return (e1, a')"
    and e1: "e = None \<Longrightarrow> e1 = None"
    by (auto simp: auditOrgs_team_def split: outcome.splits option.splits)
  show "wf_auditor a'" by (rule auditTeam_registers(1) [OF inner wf])
  show "\<exists>p. kept (\<lambda>_. True) (User.Name (TeamMember.User m)) p a'"
    if "e = None" and "fetchReposForTeam w orgName (Team.Name team) = Inr (tr # trs)"
      and "fetchMembersForTeam w orgName (Team.Name team) = Inr ms" and "m \<in> set ms"
    using auditTeam_registers(2) [OF inner wf] e1 that by blast
qed

lemma auditOrgs_team_keeps_name:
  assumes "auditOrgs_team sem w orgName team a = Return (e, a')"
    and "\<exists>p. kept (\<lambda>_. True) name p a"
  shows "\<exists>p. kept (\<lambda>_. True) name p a'"
  using assms auditOrgs_team_kept [where Q = "\<lambda>_. True"] by blast

lemma auditOrgs_org_registers:
  assumes run: "auditOrgs_org sem w orgName a = Return (e, a')" and wf: "wf_auditor a"
  shows "wf_auditor a'"
    and "e = None \<Longrightarrow> fetchTeamsForOrg w orgName = Inr teams \<Longrightarrow> team \<in> set teams \<Longrightarrow>
         fetchReposForTeam w orgName (Team.Name team) = Inr (tr # trs) \<Longrightarrow>
         fetchMembersForTeam w orgName (Team.Name team) = Inr ms \<Longrightarrow> m \<in> set ms \<Longrightarrow>
         \<exists>p. kept (\<lambda>_. True) (User.Name (TeamMember.User m)) p a'"
proof -
  show "wf_auditor a'"
  proof (cases "fetchTeamsForOrg w orgName")
    case (Inl err)
    then show ?thesis using run wf by (simp add: auditOrgs_org_def)
  next
    case (Inr ts)
    then have loop: "for_each_err (auditOrgs_team sem w orgName) ts a = Return (e, a')"
      using run by (simp add: auditOrgs_org_def)
    show ?thesis
      by (rule for_each_err_invariant [where I = wf_auditor, OF loop wf])
         (use auditOrgs_team_registers(1) in blast)
  qed
  show "\<exists>p. kept (\<lambda>_. True) (User.Name (TeamMember.User m)) p a'"
    if e: "e = None" and teams: "fetchTeamsForOrg w orgName = Inr teams"
      and team: "team \<in> set teams"
      and repos: "fetchReposForTeam w orgName (Team.Name team) = Inr (tr # trs)"
      and ms: "fetchMembersForTeam w orgName (Team.Name team) = Inr ms" and m: "m \<in> set ms"
  proof -
    let ?P = "\<lambda>t. \<exists>p. kept (\<lambda>_. True) (User.Name (TeamMember.User m)) p t"
    have loop: "for_each_err (auditOrgs_team sem w orgName) teams a = Return (None, a')"
      using run teams e by (simp add: auditOrgs_org_def)
    have "wf_auditor a' \<and> ?P a'"
    proof (rule for_each_err_establishes [where I = wf_auditor and P = ?P, OF loop team wf])
      show "\<And>y t e t'. wf_auditor t \<Longrightarrow> auditOrgs_team sem w orgName y t = Return (e, t') \<Longrightarrow>
              wf_auditor t'"
        using auditOrgs_team_registers(1) by blast
      show "\<And>t t'. wf_auditor t \<Longrightarrow> auditOrgs_team sem w orgName team t = Return (None, t') \<Longrightarrow>
              ?P t'"
        using auditOrgs_team_registers(2) repos ms m by blast
      show "\<And>y t e t'. ?P t \<Longrightarrow> auditOrgs_team sem w orgName y t = Return (e, t') \<Longrightarrow> ?P t'"
        using auditOrgs_team_keeps_name by blast
    qed
    then show ?thesis by simp
  qed
qed

lemma auditOrgs_org_keeps_name:
  assumes "auditOrgs_org sem w orgName a = Return (e, a')"
    and "\<exists>p. kept (\<lambda>_. True) name p a"
  shows "\<exists>p. kept (\<lambda>_. True) name p a'"
  using assms auditOrgs_org_kept [where Q = "\<lambda>_. True"] by blast

lemma auditOrgs_registers:
  assumes run: "auditOrgs sem w a = Return (e, a')" and wf: "wf_auditor a"
  shows "wf_auditor a'"
    and "e = None \<Longrightarrow> orgName \<in> set (range_keys (rangeRank w) (Orgs a)) \<Longrightarrow>
         fetchTeamsForOrg w orgName = Inr teams \<Longrightarrow> team \<in> set teams \<Longrightarrow>
         fetchReposForTeam w orgName (Team.Name team) = Inr (tr # trs) \<Longrightarrow>
         fetchMembersForTeam w orgName (Team.Name team) = Inr ms \<Longrightarrow> m \<in> set ms \<Longrightarrow>
         \<exists>p. kept (\<lambda>_. True) (User.Name (TeamMember.User m)) p a'"
proof -
  have loop: "for_each_err (auditOrgs_org sem w) (range_keys (rangeRank w) (Orgs a)) a = Return (e, a')"
    using run by (simp add: auditOrgs_def)
  show "wf_auditor a'"
    by (rule for_each_err_invariant [where I = wf_auditor, OF loop wf])
       (use auditOrgs_org_registers(1) in blast)
  show "\<exists>p. kept (\<lambda>_. True) (User.Name (TeamMember.User m)) p a'"
    if e: "e = None" and org: "orgName \<in> set (range_keys (rangeRank w) (Orgs a))"
      and teams: "fetchTeamsForOrg w orgName = Inr teams" and team: "team \<in> set teams"
      and repos: "fetchReposForTeam w orgName (Team.Name team) = Inr (tr # trs)"
      and ms: "fetchMembersForTeam w orgName (Team.Name team) = Inr ms" and m: "m \<in> set ms"
  proof -
    let ?P = "\<lambda>t. \<exists>p. kept (\<lambda>_. True) (User.Name (TeamMember.User m)) p t"
    have loop': "for_each_err (auditOrgs_org sem w) (range_keys (rangeRank w) (Orgs a)) a = Return (None, a')"
      using loop e by simp
    have "wf_auditor a' \<and> ?P a'"
    proof (rule for_each_err_establishes [where I = wf_auditor and P = ?P, OF loop' org wf])
      show "\<And>y t e t'. wf_auditor t \<Longrightarrow> auditOrgs_org sem w y t = Return (e, t') \<Longrightarrow>
              wf_auditor t'"
        using auditOrgs_org_registers(1) by blast
      show "\<And>t t'. wf_auditor t \<Longrightarrow> auditOrgs_org sem w orgName t = Return (None, t') \<Longrightarrow> ?P t'"
        using auditOrgs_org_registers(2) teams team repos ms m by blast
      show "\<And>y t e t'. ?P t \<Longrightarrow> auditOrgs_org sem w y t = Return (e, t') \<Longrightarrow> ?P t'"
        using auditOrgs_org_keeps_name by blast
    qed
    then show ?thesis by simp
  qed
qed

lemma auditRemainingAccounts_acc_registers:
  assumes "auditRemainingAccounts_acc acc a = Return a'" and "wf_auditor a"
  shows "wf_auditor a'"
    and "\<not> Account.IsOrg acc \<Longrightarrow> \<exists>p. kept (\<lambda>_. True) (Account.Name acc) p a'"
  using assms
  unfolding auditRemainingAccounts_acc_def kept_def wf_auditor_def
  by (auto split: option.splits if_splits, (blast intro: less_SucI)+)

lemma auditRemainingAccounts_registers:
  assumes run: "auditRemainingAccounts w a = Return (None, a')" and wf: "wf_auditor a"
    and accts: "fetchAccounts w = Inr accts" and acc: "acc \<in> set accts"
    and user: "\<not> Account.IsOrg acc"
  shows "\<exists>p. kept (\<lambda>_. True) (Account.Name acc) p a'"
proof -
  let ?P = "\<lambda>t. \<exists>p. kept (\<lambda>_. True) (Account.Name acc) p t"
  have loop: "for_each auditRemainingAccounts_acc accts a = Return a'"
    using run accts by (simp add: auditRemainingAccounts_def split: outcome.splits)
  have "wf_auditor a' \<and> ?P a'"
  proof (rule for_each_establishes [where I = wf_auditor and P = ?P, OF loop acc wf])
    show "\<And>y t t'. wf_auditor t \<Longrightarrow> auditRemainingAccounts_acc y t = Return t' \<Longrightarrow> wf_auditor t'"
      using auditRemainingAccounts_acc_registers(1) by blast
    show "\<And>t t'. wf_auditor t \<Longrightarrow> auditRemainingAccounts_acc acc t = Return t' \<Longrightarrow> ?P t'"
      using auditRemainingAccounts_acc_registers(2) user by blast
    show "\<And>y t t'. ?P t \<Longrightarrow> auditRemainingAccounts_acc y t = Return t' \<Longrightarrow> ?P t'"
      using auditRemainingAccounts_acc_kept [where Q = "\<lambda>_. True"] by blast
  qed
  then show ?thesis by simp
qed

lemma auditAllRepos_wf:
  assumes "auditAllRepos admin w a = Return (e, a')" and "wf_auditor a"
  shows "wf_auditor a'"
proof (cases "fetchAllRepos w")
  case (Inl err)
  then show ?thesis using assms by (simp add: auditAllRepos_def)
next
  case (Inr repos)
  then have loop: "for_each (auditAllRepos_repo admin) repos a = Return a'"
    using assms(1) by (simp add: auditAllRepos_def split: outcome.splits)
  show ?thesis
    by (rule for_each_invariant [where I = wf_auditor, OF loop assms(2)])
       (use auditAllRepos_repo_wf in blast)
qed

text \<open>
  The loop of \<open>auditOrgs\<close> visits every key of a registry (a finite map) exactly
  once.
\<close>

lemma range_keys_exact:
  "finite (dom m) \<Longrightarrow> set (range_keys rank m) = dom m \<and> distinct (range_keys rank m)"
  by (simp add: range_keys_def)

text \<open>
  Conversely every enumeration of the keys, each once, is the one of some rank (the
  position of the key in the enumeration), so that a statement about all ranks is
  one about all the orders the runtime may choose.
\<close>

lemma index_inj:
  "x \<in> set xs \<Longrightarrow> y \<in> set xs \<Longrightarrow>
   length (takeWhile (\<lambda>z. z \<noteq> x) xs) = length (takeWhile (\<lambda>z. z \<noteq> y) xs) \<Longrightarrow> x = y"
  by (induction xs) (auto split: if_splits)

lemma index_sorted:
  "distinct (pre @ xs) \<Longrightarrow>
   sorted (map (\<lambda>x. length (takeWhile (\<lambda>z. z \<noteq> x) (pre @ xs))) xs)"
proof (induction xs arbitrary: pre)
  case Nil then show ?case by simp
next
  case (Cons a xs)
  have "sorted (map (\<lambda>x. length (takeWhile (\<lambda>z. z \<noteq> x) ((pre @ [a]) @ xs))) xs)"
    using Cons.prems by (intro Cons.IH) auto
  then have "sorted (map (\<lambda>x. length (takeWhile (\<lambda>z. z \<noteq> x) (pre @ a # xs))) xs)"
    by simp
  moreover have "takeWhile (\<lambda>z. z \<noteq> x) pre = pre" if "x \<in> set (a # xs)" for x
    using Cons.prems that by (auto simp: takeWhile_eq_all_conv)
  then have "\<forall>x\<in>set xs. length (takeWhile (\<lambda>z. z \<noteq> a) (pre @ a # xs))
      \<le> length (takeWhile (\<lambda>z. z \<noteq> x) (pre @ a # xs))"
    using Cons.prems by (auto simp: takeWhile_append)
  ultimately show ?case by simp
qed

lemma range_keys_any_order:
  assumes "distinct xs" and "set xs = dom m"
  shows "range_keys (\<lambda>x. length (takeWhile (\<lambda>z. z \<noteq> x) xs)) m = xs"
proof -
  let ?f = "\<lambda>x. length (takeWhile (\<lambda>z. z \<noteq> x) xs)"
  let ?zs = "sort_key ?f (sorted_list_of_set (dom m))"
  have fin: "finite (dom m)" using assms(2) [symmetric] by simp
  have inj: "inj_on ?f (set xs)" by (rule inj_onI) (rule index_inj)
  have set_eq: "set ?zs = set xs" using fin assms(2) by simp
  have dist: "distinct ?zs" using fin by simp
  have "sorted (map ?f xs)" using index_sorted [of "[]" xs] assms(1) by simp
  moreover have "distinct (map ?f xs)" using assms(1) inj by (simp add: distinct_map)
  moreover have "sorted (map ?f ?zs)" by (rule sorted_sort_key)
  moreover have "distinct (map ?f ?zs)"
    using dist inj set_eq by (simp only: distinct_map)
  moreover have "set (map ?f xs) = set (map ?f ?zs)" using set_eq by (simp only: set_map)
  ultimately have "map ?f ?zs = map ?f xs" by (metis sorted_distinct_set_unique)
  moreover have "inj_on ?f (set ?zs \<union> set xs)" using inj set_eq by (simp only: Un_absorb)
  ultimately have "?zs = xs" by (simp only: inj_on_map_eq_map)
  then show ?thesis by (simp only: range_keys_def)
qed

lemma auditAllRepos_registers_org:
  assumes run: "auditAllRepos admin w a = Return (None, a')"
    and fin: "finite (dom (Orgs a))"
    and repos: "fetchAllRepos w = Inr repos" and g: "g \<in> set repos"
    and org: "Repo.AccountType g = AccountTypeOrg"
  shows "finite (dom (Orgs a')) \<and> Orgs a' (Repo.AccountName g) \<noteq> None"
proof -
  let ?I = "\<lambda>t. finite (dom (Orgs t))"
  let ?P = "\<lambda>t. Orgs t (Repo.AccountName g) \<noteq> None"
  have loop: "for_each (auditAllRepos_repo admin) repos a = Return a'"
    using run repos by (simp add: auditAllRepos_def split: outcome.splits)
  show ?thesis
  proof (rule for_each_establishes [where I = ?I and P = ?P, OF loop g fin])
    show "\<And>y t t'. ?I t \<Longrightarrow> auditAllRepos_repo admin y t = Return t' \<Longrightarrow> ?I t'"
      by (auto dest!: auditAllRepos_repo_Orgs split: if_splits)
    show "\<And>t t'. auditAllRepos_repo admin g t = Return t' \<Longrightarrow> ?P t'"
      using org by (auto dest!: auditAllRepos_repo_Orgs split: if_splits)
    show "\<And>y t t'. ?P t \<Longrightarrow> auditAllRepos_repo admin y t = Return t' \<Longrightarrow> ?P t'"
      by (auto dest!: auditAllRepos_repo_Orgs split: if_splits)
  qed
qed

text \<open>
  C6, amended. Start from a registry whose pointers are allocated addresses and that
  knows finitely many organizations (a Go map has finitely many keys; the registry of
  \<open>NewAuditor\<close> has none), and let the run return without error. Then the
  final registry of users has a key for the owner of every listed repository whose
  owner is not an organization, for every entry of the account listing that is not an
  organization, and for every member of a team that has at least one repository
  grant, of an organization that owns a listed repository. The registry is a map, so
  a name is a key at most once.
\<close>

theorem no_account_loss:
  assumes "wf_auditor a" and "finite (dom (Orgs a))"
    and "Run admin sem w a = Return (None, a')"
  shows "(\<forall>repos r. fetchAllRepos w = Inr repos \<longrightarrow> r \<in> set repos \<longrightarrow>
            Repo.AccountType r \<noteq> AccountTypeOrg \<longrightarrow> Users a' (Repo.AccountName r) \<noteq> None)
       \<and> (\<forall>repos g teams team tr trs ms m.
            fetchAllRepos w = Inr repos \<longrightarrow> g \<in> set repos \<longrightarrow>
            Repo.AccountType g = AccountTypeOrg \<longrightarrow>
            fetchTeamsForOrg w (Repo.AccountName g) = Inr teams \<longrightarrow> team \<in> set teams \<longrightarrow>
            fetchReposForTeam w (Repo.AccountName g) (Team.Name team) = Inr (tr # trs) \<longrightarrow>
            fetchMembersForTeam w (Repo.AccountName g) (Team.Name team) = Inr ms \<longrightarrow>
            m \<in> set ms \<longrightarrow>
            Users a' (User.Name (TeamMember.User m)) \<noteq> None)
       \<and> (\<forall>accts acc. fetchAccounts w = Inr accts \<longrightarrow> acc \<in> set accts \<longrightarrow>
            \<not> Account.IsOrg acc \<longrightarrow> Users a' (Account.Name acc) \<noteq> None)"
proof -
  from assms(3) obtain a1 a2 where
    s1: "auditAllRepos admin w a = Return (None, a1)"
    and s2: "auditOrgs sem w a1 = Return (None, a2)"
    and s3: "auditRemainingAccounts w a2 = Return (None, a')"
    by (rule Run_stages)
  have wf1: "wf_auditor a1" by (rule auditAllRepos_wf [OF s1 assms(1)])
  have wf2: "wf_auditor a2" by (rule auditOrgs_registers(1) [OF s2 wf1])
  have owners: "Users a' (Repo.AccountName r) \<noteq> None"
    if "fetchAllRepos w = Inr repos" "r \<in> set repos" "Repo.AccountType r \<noteq> AccountTypeOrg"
    for repos r
  proof -
    from auditAllRepos_owner [OF s1 assms(1) that] obtain p where
      "kept (\<lambda>u. stored_level u (Repo.Name r) = Some admin) (Repo.AccountName r) p a1" by blast
    then have "kept (\<lambda>_. True) (Repo.AccountName r) p a1" by (simp add: kept_def)
    then have "kept (\<lambda>_. True) (Repo.AccountName r) p a2"
      by (rule auditOrgs_kept [OF s2])
    then have "kept (\<lambda>_. True) (Repo.AccountName r) p a'"
      by (rule auditRemainingAccounts_kept [OF s3])
    then show ?thesis by (simp add: kept_def)
  qed
  have members: "Users a' (User.Name (TeamMember.User m)) \<noteq> None"
    if "fetchAllRepos w = Inr repos" "g \<in> set repos" "Repo.AccountType g = AccountTypeOrg"
      "fetchTeamsForOrg w (Repo.AccountName g) = Inr teams" "team \<in> set teams"
      "fetchReposForTeam w (Repo.AccountName g) (Team.Name team) = Inr (tr # trs)"
      "fetchMembersForTeam w (Repo.AccountName g) (Team.Name team) = Inr ms" "m \<in> set ms"
    for repos g teams team tr trs ms m
  proof -
    from auditAllRepos_registers_org [OF s1 assms(2) that(1,2,3)]
    have "finite (dom (Orgs a1))" and "Repo.AccountName g \<in> dom (Orgs a1)" by auto
    then have org: "Repo.AccountName g \<in> set (range_keys (rangeRank w) (Orgs a1))"
      using range_keys_exact [of "Orgs a1" "rangeRank w"] by simp
    from auditOrgs_registers(2) [OF s2 wf1 refl org that(4,5,6,7,8)] obtain p where
      "kept (\<lambda>_. True) (User.Name (TeamMember.User m)) p a2" by blast
    then have "kept (\<lambda>_. True) (User.Name (TeamMember.User m)) p a'"
      by (rule auditRemainingAccounts_kept [OF s3])
    then show ?thesis by (simp add: kept_def)
  qed
  have listed: "Users a' (Account.Name acc) \<noteq> None"
    if "fetchAccounts w = Inr accts" "acc \<in> set accts" "\<not> Account.IsOrg acc" for accts acc
    using auditRemainingAccounts_registers [OF s3 wf2 that] by (auto simp: kept_def)
  from owners members listed show ?thesis by blast
qed

theorem no_account_loss_witness:
  "\<exists>a'. Run Admin PerLoop demo a0 = Return (None, a') \<and>
      Users a' ''alice'' \<noteq> None \<and> Users a' ''bob'' \<noteq> None \<and> Users a' ''dave'' \<noteq> None"
proof -
  obtain a' where run: "Run Admin PerLoop demo a0 = Return (None, a')"
    using demo_runs by blast
  have wf: "wf_auditor a0" by (simp add: wf_auditor_def a0_def NewAuditor_def)
  have fin: "finite (dom (Orgs a0))" by (simp add: a0_def NewAuditor_def)
  note all = no_account_loss [OF wf fin run]
  have repos: "fetchAllRepos demo = Inr
      [repo_of ''alice'' AccountTypeUser ''proj'' VisibilityPrivate,
       repo_of ''acme'' AccountTypeOrg ''infra'' VisibilityPrivate,
       repo_of ''erin'' AccountTypeUser ''tool'' VisibilityPublic]"
    by (simp add: fetchAllRepos_def demo_def)
  have "Users a' (Repo.AccountName (repo_of ''alice'' AccountTypeUser ''proj'' VisibilityPrivate)) \<noteq> None"
    using all repos by (simp add: repo_of_def AccountTypeOrg_def AccountTypeUser_def)
  then have alice: "Users a' ''alice'' \<noteq> None" by (simp add: repo_of_def)
  have "Users a' (User.Name (TeamMember.User (member ''2'' ''bob''))) \<noteq> None"
  proof -
    have "fetchAllRepos demo = Inr repos \<longrightarrow> g \<in> set repos \<longrightarrow>
            Repo.AccountType g = AccountTypeOrg \<longrightarrow>
            fetchTeamsForOrg demo (Repo.AccountName g) = Inr teams \<longrightarrow> team \<in> set teams \<longrightarrow>
            fetchReposForTeam demo (Repo.AccountName g) (Team.Name team) = Inr (tr # trs) \<longrightarrow>
            fetchMembersForTeam demo (Repo.AccountName g) (Team.Name team) = Inr ms \<longrightarrow>
            m \<in> set ms \<longrightarrow>
            Users a' (User.Name (TeamMember.User m)) \<noteq> None"
      for repos g teams team tr trs ms m
      using all by blast
    from this [of "[repo_of ''alice'' AccountTypeUser ''proj'' VisibilityPrivate,
          repo_of ''acme'' AccountTypeOrg ''infra'' VisibilityPrivate,
          repo_of ''erin'' AccountTypeUser ''tool'' VisibilityPublic]"
        "repo_of ''acme'' AccountTypeOrg ''infra'' VisibilityPrivate"
        "[\<lparr>Team.ID = ''t1'', Name = ''platform'', Users = [], Repos = []\<rparr>]"
        "\<lparr>Team.ID = ''t1'', Name = ''platform'', Users = [], Repos = []\<rparr>"
        "\<lparr>TeamRepo.Repo = repo_of ''acme'' AccountTypeOrg ''infra'' VisibilityPrivate,
           Level = Write\<rparr>"
        "[\<lparr>TeamRepo.Repo = repo_of ''alice'' AccountTypeUser ''proj'' VisibilityPrivate,
           Level = Read\<rparr>]"
        "[member ''1'' ''alice'', member ''2'' ''bob'']" "member ''2'' ''bob''"]
    show ?thesis
      by (simp add: demo_def fetchAllRepos_def fetchTeamsForOrg_def fetchReposForTeam_def
            fetchMembersForTeam_def repo_of_def)
  qed
  then have bob: "Users a' ''bob'' \<noteq> None" by (simp add: member_def)
  have "Users a' (Account.Name \<lparr>Account.ID = ''4'', Name = ''dave'', IsOrg = False, IsAdmin = True\<rparr>) \<noteq> None"
    using all by (simp add: fetchAccounts_def demo_def)
  then have dave: "Users a' ''dave'' \<noteq> None" by simp
  from run alice bob dave show ?thesis by blast
qed

text \<open>
  C6 as stated fails: \<open>bob\<close> is a member of the team \<open>platform\<close>, which has
  no repository grant, and is not in the account listing. The run returns without
  error and \<open>bob\<close> is not a key of the final registry.
\<close>

theorem no_account_loss_counterexample:
  "(\<exists>a'. Run Admin PerLoop idle_team a0 = Return (None, a') \<and> Users a' ''bob'' = None) \<and>
   (\<exists>a'. Run Admin PerIteration idle_team a0 = Return (None, a') \<and> Users a' ''bob'' = None) \<and>
   fetchTeamsForOrg idle_team ''acme''
     = Inr [\<lparr>Team.ID = ''t1'', Name = ''platform'', Users = [], Repos = []\<rparr>] \<and>
   fetchMembersForTeam idle_team ''acme'' ''platform'' = Inr [member ''2'' ''bob'']"
  by (simp add: idle_team_def eval_defs)

section \<open>Failures\<close>

lemma for_each_err_stops:
  assumes "for_each_err body pre s = Return (None, s1)" and "body x s1 = Return (Some e, s2)"
  shows "for_each_err body (pre @ x # post) s = Return (Some e, s2)"
  using assms by (simp add: for_each_err_append)

text \<open>
  C8. \<open>Run\<close> calls the functions of \<open>chain\<close> in order. If the functions before
  \<open>f\<close> have returned no error and \<open>f\<close> returns the error \<open>e\<close>, then \<open>Run\<close>
  returns \<open>e\<close>, with the state as \<open>f\<close> left it; the result is the same whatever
  functions follow \<open>f\<close> in the chain, so none of them takes part. When \<open>Run\<close>
  was started by \<open>main\<close>, the process writes the error line and nothing else, no
  report, and exits with status 1.
\<close>

theorem first_error_aborts_run:
  assumes "chain admin sem w = pre @ f # post"
    and "for_each_err (\<lambda>f. f) pre a = Return (None, a1)"
    and "f a1 = Return (Some e, a2)"
  shows "Run admin sem w a = Return (Some e, a2) \<and>
         (\<forall>later. for_each_err (\<lambda>f. f) (pre @ f # later) a = Return (Some e, a2)) \<and>
         (a = NewAuditor base64 (getenv ''HOST'') (getenv ''USER'') (getenv ''PASS'') \<longrightarrow>
            main_go admin sem base64 getenv w
              = \<lparr>stdout = [ErrorLine (''ERROR: '' @ e)], exit_status = 1\<rparr>)"
proof -
  have stops: "for_each_err (\<lambda>f. f) (pre @ f # later) a = Return (Some e, a2)" for later
    using for_each_err_stops [where body = "\<lambda>f. f", OF assms(2)] assms(3) by simp
  then have run: "Run admin sem w a = Return (Some e, a2)"
    by (simp add: Run_def assms(1))
  then show ?thesis using stops by (auto simp: main_go_def)
qed

theorem first_error_aborts_run_witness:
  "\<exists>a2. Run Admin PerLoop outage a0 =
       Return (Some (''error auditing teams for org '' @ quoted ''acme'' @ '': ''
                 @ ''error requesting users for team: timeout''), a2) \<and>
     main_go Admin PerLoop (\<lambda>s. s) environ outage =
       \<lparr>stdout = [ErrorLine (''ERROR: '' @ ''error auditing teams for org '' @ quoted ''acme''
                    @ '': '' @ ''error requesting users for team: timeout'')],
        exit_status = 1\<rparr>"
proof -
  let ?e = "''error auditing teams for org '' @ quoted ''acme'' @ '': ''
                 @ ''error requesting users for team: timeout''"
  have ch: "chain Admin PerLoop outage =
      [auditAllRepos Admin outage] @ auditOrgs PerLoop outage # [auditRemainingAccounts outage]"
    by (simp add: chain_def)
  have "\<exists>a1 a2. for_each_err (\<lambda>f. f) [auditAllRepos Admin outage] a0 = Return (None, a1) \<and>
      auditOrgs PerLoop outage a1 = Return (Some ?e, a2)"
    by (simp add: outage_def demo_def eval_defs)
  then obtain a1 a2 where
    s1: "for_each_err (\<lambda>f. f) [auditAllRepos Admin outage] a0 = Return (None, a1)"
    and s2: "auditOrgs PerLoop outage a1 = Return (Some ?e, a2)" by blast
  have a0: "a0 = NewAuditor (\<lambda>s. s) (environ ''HOST'') (environ ''USER'') (environ ''PASS'')"
    by (simp add: a0_def environ_def)
  from first_error_aborts_run [OF ch s1 s2, of "\<lambda>s. s" environ] a0
  show ?thesis by blast
qed

section \<open>Grants the run does not make\<close>

text \<open>
  C3, on the code. The run on \<open>demo\<close> returns without error and has recorded
  erin's public repository \<open>tool\<close> in \<open>publicRepos\<close>; the report that \<open>main\<close>
  prints is the registry as \<open>Run\<close> left it, and in it \<open>bob\<close> has no entry for
  \<open>tool\<close>: nothing ever reads \<open>publicRepos\<close>.
\<close>

theorem public_repos_are_never_broadcast:
  "(\<exists>a' u. Run Admin PerLoop demo a0 = Return (None, a') \<and>
      publicRepos a' = [(repo_of ''erin'' AccountTypeUser ''tool'' VisibilityPublic)
                          \<lparr>Repo.Level := Admin\<rparr>] \<and>
      report_users a' ''bob'' = Some u \<and> stored_level u ''tool'' = None \<and>
      main_go Admin PerLoop (\<lambda>s. s) environ demo
        = \<lparr>stdout = [Report (report_users a') (Orgs a')], exit_status = 0\<rparr>) \<and>
   (\<exists>a' u. Run Admin PerIteration demo a0 = Return (None, a') \<and>
      publicRepos a' = [(repo_of ''erin'' AccountTypeUser ''tool'' VisibilityPublic)
                          \<lparr>Repo.Level := Admin\<rparr>] \<and>
      report_users a' ''bob'' = Some u \<and> stored_level u ''tool'' = None \<and>
      main_go Admin PerIteration (\<lambda>s. s) environ demo
        = \<lparr>stdout = [Report (report_users a') (Orgs a')], exit_status = 0\<rparr>)"
  by (simp add: demo_def eval_defs main_go_def report_users_def stored_level_def environ_def)


section \<open>Which entries survive\<close>

lemma at_least_AddRepo:
  assumes "at_least k l u" and "AddRepo u r = Return u'"
  shows "at_least k l u'"
proof -
  from assms(1) obtain l' where l': "stored_level u k = Some l'" "l \<le> l'"
    by (auto simp: at_least_def)
  then have "User.Repos u \<noteq> None" by (auto simp: stored_level_def split: option.splits)
  from AddRepo_stored_level [OF this, of r] assms(2)
  have "stored_level u' k =
          (if k = Repo.Name r then merge_level (stored_level u k) (Repo.Level r)
           else stored_level u k)" by auto
  then show ?thesis using l' by (auto simp: at_least_def merge_level_def)
qed

lemma at_least_assign:
  assumes "at_least k l u" and "User.Repos u = Some m" and "Repo.Level r = admin"
    and "l \<le> admin"
  shows "at_least k l (u\<lparr>User.Repos := Some (m(Repo.Name r \<mapsto> r))\<rparr>)"
  using assms by (auto simp: at_least_def stored_level_def)

lemma at_least_flags:
  "at_least k l u \<Longrightarrow> at_least k l (u\<lparr>User.IsAdmin := b, User.ID := i\<rparr>)"
  by (simp add: at_least_def stored_level_def)

lemma auditTeam_member_PerIteration_kept:
  assumes "auditTeam_member PerIteration slot repo m a = Return a'"
    and "kept Q name p a"
    and "\<And>u u'. Q u \<Longrightarrow> AddRepo u repo = Return u' \<Longrightarrow> Q u'"
  shows "kept Q name p a'"
  using assms
  unfolding auditTeam_member_def AddRepo_at_def kept_def wf_auditor_def Let_def
  by (auto split: option.splits outcome.splits if_splits, (blast intro: less_SucI)+)

text \<open>
  With a variable per iteration, every iteration of every loop of the run keeps, for
  every registered account, the address of its record and every entry of its
  mapping, at the same or a higher level.
\<close>

lemma PerIteration_keeps_entries:
  assumes "kept (at_least k l) name p a"
  shows "l \<le> admin \<Longrightarrow> auditAllRepos_repo admin r a = Return a' \<Longrightarrow>
           kept (at_least k l) name p a'"
    and "auditTeam_member PerIteration slot repo m a = Return a' \<Longrightarrow>
           kept (at_least k l) name p a'"
    and "auditRemainingAccounts_acc acc a = Return a' \<Longrightarrow> kept (at_least k l) name p a'"
proof -
  show "kept (at_least k l) name p a'"
    if "l \<le> admin" and "auditAllRepos_repo admin r a = Return a'"
    using auditAllRepos_repo_kept [OF that(2) assms] at_least_assign that(1) by blast
  show "kept (at_least k l) name p a'"
    if "auditTeam_member PerIteration slot repo m a = Return a'"
    using auditTeam_member_PerIteration_kept [OF that assms] at_least_AddRepo by blast
  show "kept (at_least k l) name p a'" if "auditRemainingAccounts_acc acc a = Return a'"
    using auditRemainingAccounts_acc_kept [OF that assms] at_least_flags by blast
qed

text \<open>
  Under either meaning of the variable, an entry that an account has when stage 2
  starts is in the report, at the same or a higher level.
\<close>

lemma entries_before_stage2_survive:
  assumes "wf_auditor a1" and "Users a1 name = Some p"
    and "stored_level (store a1 p) k = Some l"
    and "auditOrgs sem w a1 = Return (None, a2)"
    and "auditRemainingAccounts w a2 = Return (None, a')"
  shows "\<exists>u l'. report_users a' name = Some u \<and> stored_level u k = Some l' \<and> l \<le> l'"
proof -
  have "kept (at_least k l) name p a1"
    using assms(1,2,3) by (simp add: kept_def at_least_def)
  then have "kept (at_least k l) name p a2"
    using auditOrgs_kept [OF assms(4)] at_least_AddRepo by blast
  then have "kept (at_least k l) name p a'"
    using auditRemainingAccounts_kept [OF assms(5)] at_least_flags by blast
  then show ?thesis by (auto simp: kept_def at_least_def report_users_def)
qed

text \<open>
  C4, on the code. With one variable \<open>u\<close> for all iterations (\<open>PerLoop\<close>), the
  run on \<open>clobber\<close> first registers \<open>bob\<close> at the address of \<open>u.User\<close> and
  merges Write on \<open>infra\<close>; the next iteration assigns alice's member record to
  \<open>u\<close>, and with it to the record \<open>bob\<close> is registered at. The run returns
  without error, and in the report \<open>bob\<close> has the name \<open>alice\<close>, the nil mapping
  and no entry for \<open>infra\<close>. On \<open>clobber2\<close> the second repository of the team is
  merged into bob's nil mapping and the run panics. With a variable per iteration
  (\<open>PerIteration\<close>) \<open>bob\<close> keeps the name \<open>bob\<close> and Write on \<open>infra\<close>.
\<close>

theorem loop_variable_loses_permissions:
  "(\<exists>a1 amid u. auditAllRepos Admin clobber a0 = Return (None, a1) \<and>
      auditTeam_member PerLoop (fresh a1)
        ((repo_of ''acme'' AccountTypeOrg ''infra'' VisibilityPrivate)\<lparr>Repo.Level := Write\<rparr>)
        (member ''2'' ''bob'') (a1\<lparr>fresh := Suc (fresh a1)\<rparr>) = Return amid \<and>
      report_users amid ''bob'' = Some u \<and> stored_level u ''infra'' = Some Write) \<and>
   (\<exists>a' u. Run Admin PerLoop clobber a0 = Return (None, a') \<and>
      report_users a' ''bob'' = Some u \<and> User.Name u = ''alice'' \<and>
      User.Repos u = None \<and> stored_level u ''infra'' = None) \<and>
   Run Admin PerLoop clobber2 a0 = Panic ''assignment to entry in nil map'' \<and>
   (\<exists>a' u. Run Admin PerIteration clobber a0 = Return (None, a') \<and>
      report_users a' ''bob'' = Some u \<and> User.Name u = ''bob'' \<and>
      stored_level u ''infra'' = Some Write)"
  by (simp add: clobber_def clobber2_def eval_defs report_users_def stored_level_def)

section \<open>Retries\<close>

lemma do_attempt_failure:
  "\<exists>resp'. do_attempt uri (resp, n) =
     (failure uri (answers n (calls n)),
      (resp', n\<lparr>calls := Suc (calls n), trace := trace n @ [RoundTrip uri]\<rparr>))"
  by (auto simp: do_attempt_def client_Do_def failure_def split: http_result.splits)


lemma retry_do_attempt:
  fixes uri n
  defines "r \<equiv> \<lambda>i. failure uri (answers n (calls n + i))"
  shows "\<exists>resp'. retry (do_attempt uri) (resp, n) =
     (if r 0 = None then
        (None, resp', n\<lparr>calls := calls n + 1, trace := trace n @ [RoundTrip uri]\<rparr>)
      else if r 1 = None then
        (None, resp', n\<lparr>calls := calls n + 2,
           trace := trace n @ [RoundTrip uri, Wait 5, RoundTrip uri]\<rparr>)
      else if r 2 = None then
        (None, resp', n\<lparr>calls := calls n + 3,
           trace := trace n @ [RoundTrip uri, Wait 5, RoundTrip uri, Wait 5, RoundTrip uri]\<rparr>)
      else
        (r 2, resp', n\<lparr>calls := calls n + 3,
           trace := trace n @ [RoundTrip uri, Wait 5, RoundTrip uri, Wait 5, RoundTrip uri, Wait 5]\<rparr>))"
proof -
  let ?n1 = "n\<lparr>calls := Suc (calls n), trace := trace n @ [RoundTrip uri]\<rparr>"
  let ?w1 = "?n1\<lparr>trace := trace ?n1 @ [Wait 5]\<rparr>"
  let ?n2 = "?w1\<lparr>calls := Suc (calls ?w1), trace := trace ?w1 @ [RoundTrip uri]\<rparr>"
  let ?w2 = "?n2\<lparr>trace := trace ?n2 @ [Wait 5]\<rparr>"
  let ?n3 = "?w2\<lparr>calls := Suc (calls ?w2), trace := trace ?w2 @ [RoundTrip uri]\<rparr>"
  obtain v1 where a1: "do_attempt uri (resp, n) = (r 0, (v1, ?n1))"
    using do_attempt_failure [of uri resp n] by (auto simp: r_def)
  obtain v2 where a2: "do_attempt uri (v1, ?w1) = (r 1, (v2, ?n2))"
    using do_attempt_failure [of uri v1 ?w1] by (auto simp: r_def)
  obtain v3 where a3: "do_attempt uri (v2, ?w2) = (r 2, (v3, ?n3))"
    using do_attempt_failure [of uri v2 ?w2] by (auto simp: r_def)
  show ?thesis
  proof (cases "r 0")
    case None
    then show ?thesis using a1 by (simp add: retry_def retry_from.simps [of 0])
  next
    case e0: (Some e0)
    show ?thesis
    proof (cases "r 1")
      case None
      then show ?thesis using a1 a2 e0
        by (simp add: retry_def retry_from.simps [of 0] retry_from.simps [of "Suc 0"])
    next
      case e1: (Some e1)
      show ?thesis
      proof (cases "r 2")
        case None
        then show ?thesis using a1 a2 a3 e0 e1
          by (simp add: retry_def retry_from.simps [of 0] retry_from.simps [of "Suc 0"]
                retry_from.simps [of "Suc (Suc 0)"])
      next
        case (Some e2)
        then show ?thesis using a1 a2 a3 e0 e1
          by (simp add: retry_def retry_from.simps [of 0] retry_from.simps [of "Suc 0"]
                retry_from.simps [of "Suc (Suc 0)"] retry_from.simps [of "Suc (Suc (Suc 0))"])
      qed
    qed
  qed
qed

text \<open>
  C9. Every fetcher reaches the network through \<open>get\<close>, which calls \<open>do\<close> once.
  \<open>do\<close> makes at most three round trips. If the first one succeeds it returns no
  error after that one round trip and no wait. After each failed round trip it waits
  5 seconds, so 5 seconds lie between two attempts (and after the third failure,
  before the error is returned). After three failures it returns the error of the
  third. A round trip fails on a transport error and on every response whose status
  code is outside \<open>200..299\<close>, and the two are retried alike.
\<close>

theorem do_retries_three_times:
  "(failure uri (answers n (calls n)) = None \<longrightarrow>
      snd (fst (do uri n)) = None \<and> calls (snd (do uri n)) = calls n + 1 \<and>
      trace (snd (do uri n)) = trace n @ [RoundTrip uri])
   \<and> (failure uri (answers n (calls n)) \<noteq> None \<and>
        failure uri (answers n (calls n + 1)) = None \<longrightarrow>
      snd (fst (do uri n)) = None \<and> calls (snd (do uri n)) = calls n + 2 \<and>
      trace (snd (do uri n)) = trace n @ [RoundTrip uri, Wait 5, RoundTrip uri])
   \<and> (failure uri (answers n (calls n)) \<noteq> None \<and>
        failure uri (answers n (calls n + 1)) \<noteq> None \<and>
        failure uri (answers n (calls n + 2)) = None \<longrightarrow>
      snd (fst (do uri n)) = None \<and> calls (snd (do uri n)) = calls n + 3 \<and>
      trace (snd (do uri n))
        = trace n @ [RoundTrip uri, Wait 5, RoundTrip uri, Wait 5, RoundTrip uri])
   \<and> (failure uri (answers n (calls n)) \<noteq> None \<and>
        failure uri (answers n (calls n + 1)) \<noteq> None \<and>
        failure uri (answers n (calls n + 2)) \<noteq> None \<longrightarrow>
      snd (fst (do uri n)) = failure uri (answers n (calls n + 2)) \<and>
      calls (snd (do uri n)) = calls n + 3 \<and>
      trace (snd (do uri n))
        = trace n @ [RoundTrip uri, Wait 5, RoundTrip uri, Wait 5, RoundTrip uri, Wait 5])
   \<and> (\<forall>err. failure uri (TransportError err) = Some err)
   \<and> (\<forall>code body. (failure uri (Response code body) = None) = (200 \<le> code \<and> code \<le> 299))"
proof -
  obtain resp' where r: "retry (do_attempt uri) (None, n) =
     (if failure uri (answers n (calls n + 0)) = None then
        (None, resp', n\<lparr>calls := calls n + 1, trace := trace n @ [RoundTrip uri]\<rparr>)
      else if failure uri (answers n (calls n + 1)) = None then
        (None, resp', n\<lparr>calls := calls n + 2,
           trace := trace n @ [RoundTrip uri, Wait 5, RoundTrip uri]\<rparr>)
      else if failure uri (answers n (calls n + 2)) = None then
        (None, resp', n\<lparr>calls := calls n + 3,
           trace := trace n @ [RoundTrip uri, Wait 5, RoundTrip uri, Wait 5, RoundTrip uri]\<rparr>)
      else
        (failure uri (answers n (calls n + 2)), resp', n\<lparr>calls := calls n + 3,
           trace := trace n @ [RoundTrip uri, Wait 5, RoundTrip uri, Wait 5, RoundTrip uri, Wait 5]\<rparr>))"
    using retry_do_attempt [of uri None n] by blast
  have kinds: "(\<forall>err. failure uri (TransportError err) = Some err) \<and>
     (\<forall>code body. (failure uri (Response code body) = None) = (200 \<le> code \<and> code \<le> 299))"
    by (simp add: failure_def)
  show ?thesis
    unfolding do_def r using kinds by auto
qed

theorem do_retries_three_times_witness:
  "snd (fst (do ''u'' flaky2)) = None \<and>
   trace (snd (do ''u'' flaky2))
     = [RoundTrip ''u'', Wait 5, RoundTrip ''u'', Wait 5, RoundTrip ''u''] \<and>
   snd (fst (do ''u'' down)) = Some ''timeout'' \<and>
   calls (snd (do ''u'' down)) = 3 \<and>
   trace (snd (do ''u'' down))
     = [RoundTrip ''u'', Wait 5, RoundTrip ''u'', Wait 5, RoundTrip ''u'', Wait 5]"
  using do_retries_three_times [of "''u''" flaky2] do_retries_three_times [of "''u''" down]
  by (simp add: flaky2_def down_def failure_def)

end
